theory Spec2Isabelle
  imports Complex_Main "HOL-Library.Word" "HOL-Library.Sublist"
begin

section \<open>Machine model\<close>

text \<open>
  A shallow embedding of \<^verbatim>\<open>matrix_product.cpp\<close>: the transposer \<^verbatim>\<open>buildTranspose\<close>,
  the kernels \<^verbatim>\<open>multiplyNaive\<close> and \<^verbatim>\<open>multiplyWithTranspose\<close>, and \<^verbatim>\<open>main\<close>.

  The kernels index \<^verbatim>\<open>std::vector<double>\<close> objects that they receive by reference,
  with an \<^verbatim>\<open>int\<close> computed by the lambda \<^verbatim>\<open>index(row, col) = row * n + col\<close>. Two
  things can go wrong in such an access, and both are undefined behaviour in C++: the
  \<^verbatim>\<open>int\<close> arithmetic can leave the range of \<^verbatim>\<open>int\<close>, and \<^verbatim>\<open>operator[]\<close> can be
  applied beyond the vector's size. Each is a value of \<open>error\<close> here, and every function
  that can reach one returns \<open>error + 'a\<close>. An \<^verbatim>\<open>int\<close> has 32 bits, as on every
  platform the program's build line (\<^verbatim>\<open>g++ -O3 -march=native\<close>) targets.
\<close>

datatype error = IntOverflow | OutOfRange

definition INT_MAX :: nat where
  "INT_MAX = 2147483647"

definition bindE :: "error + 'a \<Rightarrow> ('a \<Rightarrow> error + 'b) \<Rightarrow> error + 'b" where
  "bindE r f = (case r of Inl e \<Rightarrow> Inl e | Inr x \<Rightarrow> f x)"

text \<open>
  Vectors live in a store, so that two references may name the same vector. The field
  \<open>stores\<close> is a ghost log of the element writes, in program order; it has no
  influence on any value and only serves to state how often a cell is written.
\<close>

type_synonym addr = nat

record 'a memory =
  vec :: "addr \<Rightarrow> 'a list"
  stores :: "(addr \<times> nat) list"

text \<open>
  The lambda \<^verbatim>\<open>index\<close>, with the \<open>n\<close> it captures as its first argument. The loop
  counters start at 0 and only count up, and a dimension \<open>n \<le> 0\<close> runs no iteration at
  all (as \<open>n = 0\<close> does here), so the operands are never negative and are natural numbers;
  the result is checked against the largest \<^verbatim>\<open>int\<close>. (With non-negative operands
  \<open>row * n\<close> is in range whenever \<open>row * n + col\<close> is.)

  \<open>load\<close> and \<open>store\<close> are \<^verbatim>\<open>v[i]\<close> as an rvalue and as the target of an assignment.
\<close>

definition index :: "nat \<Rightarrow> nat \<Rightarrow> nat \<Rightarrow> error + nat" where
  "index n row col =
     (if row * n + col \<le> INT_MAX then Inr (row * n + col) else Inl IntOverflow)"

definition load :: "'a memory \<Rightarrow> addr \<Rightarrow> nat \<Rightarrow> error + 'a" where
  "load m a i = (if i < length (vec m a) then Inr (vec m a ! i) else Inl OutOfRange)"

definition store :: "'a memory \<Rightarrow> addr \<Rightarrow> nat \<Rightarrow> 'a \<Rightarrow> error + 'a memory" where
  "store m a i x =
     (if i < length (vec m a)
      then Inr (m\<lparr>vec := (vec m)(a := (vec m a)[i := x]), stores := stores m @ [(a, i)]\<rparr>)
      else Inl OutOfRange)"

section \<open>The transposer\<close>

text \<open>
  \<^verbatim>\<open>buildTranspose\<close> (lines 64 to 78). Each \<^verbatim>\<open>for\<close> loop is a function of its
  counter: \<open>buildTranspose_j\<close> is the inner loop, \<open>buildTranspose_i\<close> the outer one. In
  \<^verbatim>\<open>mulT[index(i, j)] = mul[index(j, i)]\<close> the right-hand side is evaluated first
  (C++17), then the destination. The references \<open>mul\<close> and \<open>mulT\<close> are addresses of the
  store, and every read goes to the current store: when both name one vector, the
  function reads what it has written.
\<close>

function buildTranspose_j ::
  "'a memory \<Rightarrow> addr \<Rightarrow> addr \<Rightarrow> nat \<Rightarrow> nat \<Rightarrow> nat \<Rightarrow> error + 'a memory" where
  "buildTranspose_j m mul mulT n i j =
     (if j < n then
        bindE (index n j i) (\<lambda>src.
        bindE (load m mul src) (\<lambda>x.
        bindE (index n i j) (\<lambda>dst.
        bindE (store m mulT dst x) (\<lambda>m'.
        buildTranspose_j m' mul mulT n i (j + 1)))))
      else Inr m)"
  by pat_completeness auto
termination
  by (relation "measure (\<lambda>(m, mul, mulT, n, i, j). n - j)") auto

function buildTranspose_i ::
  "'a memory \<Rightarrow> addr \<Rightarrow> addr \<Rightarrow> nat \<Rightarrow> nat \<Rightarrow> error + 'a memory" where
  "buildTranspose_i m mul mulT n i =
     (if i < n then
        bindE (buildTranspose_j m mul mulT n i 0) (\<lambda>m'.
        buildTranspose_i m' mul mulT n (i + 1))
      else Inr m)"
  by pat_completeness auto
termination
  by (relation "measure (\<lambda>(m, mul, mulT, n, i). n - i)") auto

definition buildTranspose :: "'a memory \<Rightarrow> addr \<Rightarrow> addr \<Rightarrow> nat \<Rightarrow> error + 'a memory" where
  "buildTranspose m mul mulT n = buildTranspose_i m mul mulT n 0"

section \<open>The multiplication kernels\<close>

text \<open>
  \<^verbatim>\<open>multiplyNaive\<close> (lines 80 to 102) and \<^verbatim>\<open>multiplyWithTranspose\<close> (lines 104 to
  126), each with its three loops: \<open>_k\<close> accumulates \<^verbatim>\<open>sum\<close> (here \<open>acc\<close>), \<open>_j\<close>
  stores it, \<open>_i\<close> is the outer loop.

  The element type is left open: \<^verbatim>\<open>double\<close> enters the kernels only through
  \<^verbatim>\<open>0.0\<close>, \<^verbatim>\<open>+\<close> and \<^verbatim>\<open>*\<close>, which are the operations of the type classes
  \<open>zero\<close>, \<open>plus\<close> and \<open>times\<close>. What is proved of the kernels for every such type holds
  for the type \<open>double\<close> of binary64 values defined below in particular.
\<close>

function multiplyNaive_k ::
  "('a::{zero,plus,times}) memory \<Rightarrow> addr \<Rightarrow> addr \<Rightarrow> nat \<Rightarrow> nat \<Rightarrow> nat \<Rightarrow> nat \<Rightarrow> 'a \<Rightarrow> error + 'a" where
  "multiplyNaive_k m mul1 mul2 n i j k acc =
     (if k < n then
        bindE (index n i k) (\<lambda>p.
        bindE (load m mul1 p) (\<lambda>a.
        bindE (index n k j) (\<lambda>q.
        bindE (load m mul2 q) (\<lambda>b.
        multiplyNaive_k m mul1 mul2 n i j (k + 1) (acc + a * b)))))
      else Inr acc)"
  by pat_completeness auto
termination
  by (relation "measure (\<lambda>(m, mul1, mul2, n, i, j, k, acc). n - k)") auto

function multiplyNaive_j ::
  "('a::{zero,plus,times}) memory \<Rightarrow> addr \<Rightarrow> addr \<Rightarrow> addr \<Rightarrow> nat \<Rightarrow> nat \<Rightarrow> nat \<Rightarrow> error + 'a memory" where
  "multiplyNaive_j m mul1 mul2 res n i j =
     (if j < n then
        bindE (multiplyNaive_k m mul1 mul2 n i j 0 0) (\<lambda>acc.
        bindE (index n i j) (\<lambda>dst.
        bindE (store m res dst acc) (\<lambda>m'.
        multiplyNaive_j m' mul1 mul2 res n i (j + 1))))
      else Inr m)"
  by pat_completeness auto
termination
  by (relation "measure (\<lambda>(m, mul1, mul2, res, n, i, j). n - j)") auto

function multiplyNaive_i ::
  "('a::{zero,plus,times}) memory \<Rightarrow> addr \<Rightarrow> addr \<Rightarrow> addr \<Rightarrow> nat \<Rightarrow> nat \<Rightarrow> error + 'a memory" where
  "multiplyNaive_i m mul1 mul2 res n i =
     (if i < n then
        bindE (multiplyNaive_j m mul1 mul2 res n i 0) (\<lambda>m'.
        multiplyNaive_i m' mul1 mul2 res n (i + 1))
      else Inr m)"
  by pat_completeness auto
termination
  by (relation "measure (\<lambda>(m, mul1, mul2, res, n, i). n - i)") auto

definition multiplyNaive ::
  "('a::{zero,plus,times}) memory \<Rightarrow> addr \<Rightarrow> addr \<Rightarrow> addr \<Rightarrow> nat \<Rightarrow> error + 'a memory" where
  "multiplyNaive m mul1 mul2 res n = multiplyNaive_i m mul1 mul2 res n 0"

function multiplyWithTranspose_k ::
  "('a::{zero,plus,times}) memory \<Rightarrow> addr \<Rightarrow> addr \<Rightarrow> nat \<Rightarrow> nat \<Rightarrow> nat \<Rightarrow> nat \<Rightarrow> 'a \<Rightarrow> error + 'a" where
  "multiplyWithTranspose_k m mul1 mul2T n i j k acc =
     (if k < n then
        bindE (index n i k) (\<lambda>p.
        bindE (load m mul1 p) (\<lambda>a.
        bindE (index n j k) (\<lambda>q.
        bindE (load m mul2T q) (\<lambda>b.
        multiplyWithTranspose_k m mul1 mul2T n i j (k + 1) (acc + a * b)))))
      else Inr acc)"
  by pat_completeness auto
termination
  by (relation "measure (\<lambda>(m, mul1, mul2T, n, i, j, k, acc). n - k)") auto

function multiplyWithTranspose_j ::
  "('a::{zero,plus,times}) memory \<Rightarrow> addr \<Rightarrow> addr \<Rightarrow> addr \<Rightarrow> nat \<Rightarrow> nat \<Rightarrow> nat \<Rightarrow> error + 'a memory" where
  "multiplyWithTranspose_j m mul1 mul2T res n i j =
     (if j < n then
        bindE (multiplyWithTranspose_k m mul1 mul2T n i j 0 0) (\<lambda>acc.
        bindE (index n i j) (\<lambda>dst.
        bindE (store m res dst acc) (\<lambda>m'.
        multiplyWithTranspose_j m' mul1 mul2T res n i (j + 1))))
      else Inr m)"
  by pat_completeness auto
termination
  by (relation "measure (\<lambda>(m, mul1, mul2T, res, n, i, j). n - j)") auto

function multiplyWithTranspose_i ::
  "('a::{zero,plus,times}) memory \<Rightarrow> addr \<Rightarrow> addr \<Rightarrow> addr \<Rightarrow> nat \<Rightarrow> nat \<Rightarrow> error + 'a memory" where
  "multiplyWithTranspose_i m mul1 mul2T res n i =
     (if i < n then
        bindE (multiplyWithTranspose_j m mul1 mul2T res n i 0) (\<lambda>m'.
        multiplyWithTranspose_i m' mul1 mul2T res n (i + 1))
      else Inr m)"
  by pat_completeness auto
termination
  by (relation "measure (\<lambda>(m, mul1, mul2T, res, n, i). n - i)") auto

definition multiplyWithTranspose ::
  "('a::{zero,plus,times}) memory \<Rightarrow> addr \<Rightarrow> addr \<Rightarrow> addr \<Rightarrow> nat \<Rightarrow> error + 'a memory" where
  "multiplyWithTranspose m mul1 mul2T res n = multiplyWithTranspose_i m mul1 mul2T res n 0"

section \<open>The program\<close>

text \<open>
  \<^verbatim>\<open>main\<close> (lines 128 to 206). What the program takes from its platform is a
  parameter: the generator \<^verbatim>\<open>std::mt19937\<close> (a seed gives a state), the distribution
  \<^verbatim>\<open>dist(gen)\<close> (a state gives a value and the next state), what the
  \<^verbatim>\<open>std::random_device\<close> would deliver, the readings of \<^verbatim>\<open>steady_clock::now()\<close> in
  nanoseconds (the first call, the second call), and the bits of a \<^verbatim>\<open>double\<close>
  (\<^verbatim>\<open>reinterpret_cast<uint64_t*>\<close>).

  A run yields the functions \<^verbatim>\<open>main\<close> called, in order, the tokens written to
  \<^verbatim>\<open>std::cout\<close>, the exit status and the final store. \<^verbatim>\<open>sleep\<close> and
  \<^verbatim>\<open>flushCache\<close> compute nothing the program uses; the call of \<^verbatim>\<open>flushCache\<close> is
  recorded and no more. Running out of memory, which ends the program with an exception,
  is not modelled.
\<close>

datatype call = FlushCache | MultiplyNaive | BuildTranspose | MultiplyWithTranspose

datatype out = Str string | Dec int | Hex "64 word"

record ('g, 'a) platform =
  mt19937 :: "nat \<Rightarrow> 'g"
  uniform_real :: "'g \<Rightarrow> 'a \<times> 'g"
  random_device :: nat
  steady_clock :: "nat \<Rightarrow> int"
  to_bits :: "'a \<Rightarrow> 64 word"

record 'a run =
  calls :: "call list"
  out :: "out list"
  exit_code :: int
  final :: "'a memory"

text \<open>
  \<^verbatim>\<open>s.find("transpose") != std::string::npos\<close>: \<^verbatim>\<open>std::string::find\<close> returns the
  first position at which the pattern occurs in \<open>s\<close>, and \<^verbatim>\<open>npos\<close> (here \<open>None\<close>) when
  there is none. The loop runs over \<^verbatim>\<open>argv[0]\<close>, ..., \<^verbatim>\<open>argv[argc - 1]\<close>: \<open>argv\<close> is
  the list of these strings.
\<close>

fun find_from :: "string \<Rightarrow> string \<Rightarrow> nat \<Rightarrow> nat option" where
  "find_from pat [] pos = (if pat = [] then Some pos else None)"
| "find_from pat (c # cs) pos =
     (if prefix pat (c # cs) then Some pos else find_from pat cs (Suc pos))"

definition str_find :: "string \<Rightarrow> string \<Rightarrow> nat option" where
  "str_find s pat = find_from pat s 0"

fun transposeMode_loop :: "bool \<Rightarrow> string list \<Rightarrow> bool" where
  "transposeMode_loop t [] = t"
| "transposeMode_loop t (s # argv) =
     transposeMode_loop (t \<or> str_find s ''transpose'' \<noteq> None) argv"

definition transposeMode :: "string list \<Rightarrow> bool" where
  "transposeMode argv = transposeMode_loop False argv"

text \<open>
  \<^verbatim>\<open>const int n = 2'000\<close> is the parameter \<open>n\<close> of \<open>main_n\<close>, and \<open>main\<close> is
  \<open>main_n 2000\<close>. The size \<^verbatim>\<open>n * n\<close> of the five vectors is an \<^verbatim>\<open>int\<close> product.
  The vectors are \<^verbatim>\<open>mul1\<close>, \<^verbatim>\<open>mul2\<close>, \<^verbatim>\<open>resA\<close>, \<^verbatim>\<open>resB\<close> and \<^verbatim>\<open>mul2T\<close>, all
  zero-initialised; \<open>generate\<close> is the loop \<^verbatim>\<open>mul[i] = dist(gen)\<close> and \<open>checksum\<close> the
  loop \<^verbatim>\<open>checksum += res[i]\<close>. \<^verbatim>\<open>duration_cast<milliseconds>\<close> truncates towards zero.
\<close>

definition int_mul :: "nat \<Rightarrow> nat \<Rightarrow> error + nat" where
  "int_mul a b = (if a * b \<le> INT_MAX then Inr (a * b) else Inl IntOverflow)"

definition v_mul1 :: addr where "v_mul1 = 0"
definition v_mul2 :: addr where "v_mul2 = 1"
definition v_resA :: addr where "v_resA = 2"
definition v_resB :: addr where "v_resB = 3"
definition v_mul2T :: addr where "v_mul2T = 4"

definition alloc :: "nat \<Rightarrow> ('a::zero) memory" where
  "alloc sz =
     \<lparr>vec = (\<lambda>a. if a \<in> {v_mul1, v_mul2, v_resA, v_resB, v_mul2T} then replicate sz 0 else []),
      stores = []\<rparr>"

function generate ::
  "('g \<Rightarrow> 'a \<times> 'g) \<Rightarrow> 'a memory \<Rightarrow> addr \<Rightarrow> nat \<Rightarrow> nat \<Rightarrow> 'g \<Rightarrow> error + 'a memory \<times> 'g" where
  "generate d m a sz i g =
     (if i < sz then
        (case d g of (x, g') \<Rightarrow>
           bindE (store m a i x) (\<lambda>m'. generate d m' a sz (i + 1) g'))
      else Inr (m, g))"
  by pat_completeness auto
termination
  by (relation "measure (\<lambda>(d, m, a, sz, i, g). sz - i)") auto

function checksum :: "('a::plus) memory \<Rightarrow> addr \<Rightarrow> nat \<Rightarrow> nat \<Rightarrow> 'a \<Rightarrow> error + 'a" where
  "checksum m res sz i acc =
     (if i < sz then bindE (load m res i) (\<lambda>x. checksum m res sz (i + 1) (acc + x))
      else Inr acc)"
  by pat_completeness auto
termination
  by (relation "measure (\<lambda>(m, res, sz, i, acc). sz - i)") auto

definition duration_ms :: "int \<Rightarrow> int \<Rightarrow> int" where
  "duration_ms t0 t1 = sgn (t1 - t0) * (\<bar>t1 - t0\<bar> div 1000000)"

definition report :: "string \<Rightarrow> int \<Rightarrow> 64 word \<Rightarrow> out list" where
  "report label ms bits =
     [Str label, Dec ms, Str [CHR 0x0A], Str ''checksum: '', Hex bits, Str [CHR 0x0A]]"

definition main_n :: "nat \<Rightarrow> ('g, 'a::{zero,plus,times}) platform \<Rightarrow> string list \<Rightarrow> error + 'a run" where
  "main_n n pf argv =
     (let mode = transposeMode argv in
      bindE (int_mul n n) (\<lambda>sz.
      bindE (generate (uniform_real pf) (alloc sz) v_mul1 sz 0 (mt19937 pf 89899898)) (\<lambda>(m1, gen1).
      bindE (generate (uniform_real pf) m1 v_mul2 sz 0 gen1) (\<lambda>(m2, gen2).
      if \<not> mode then
        bindE (multiplyNaive m2 v_mul1 v_mul2 v_resA n) (\<lambda>m3.
        bindE (checksum m3 v_resA sz 0 0) (\<lambda>checksumA.
        Inr \<lparr>calls = [FlushCache, MultiplyNaive],
             out = report ''naive ms: '' (duration_ms (steady_clock pf 0) (steady_clock pf 1))
                     (to_bits pf checksumA),
             exit_code = 0, final = m3\<rparr>))
      else
        bindE (buildTranspose m2 v_mul2 v_mul2T n) (\<lambda>m3.
        bindE (multiplyWithTranspose m3 v_mul1 v_mul2T v_resB n) (\<lambda>m4.
        bindE (checksum m4 v_resB sz 0 0) (\<lambda>checksumB.
        Inr \<lparr>calls = [FlushCache, BuildTranspose, MultiplyWithTranspose],
             out = report ''transposed ms: '' (duration_ms (steady_clock pf 0) (steady_clock pf 1))
                     (to_bits pf checksumB),
             exit_code = 0, final = m4\<rparr>)))))))"

definition main :: "('g, 'a::{zero,plus,times}) platform \<Rightarrow> string list \<Rightarrow> error + 'a run" where
  "main = main_n 2000"


section \<open>Binary64 arithmetic\<close>

text \<open>
  Modelled from the spec: the type \<^verbatim>\<open>double\<close> and its \<^verbatim>\<open>+\<close> and \<^verbatim>\<open>*\<close>, which the
  source uses and the language provides. The specification names them: "standard
  IEEE-754 double addition/multiplication". A \<open>double\<close> is its 64 bits: the sign, 11 bits
  of biased exponent and 52 bits of fraction. A finite value is
  \<open>mant * 2 ^ expo\<close>, negated when the sign is set, with \<open>mant\<close> below \<open>2 ^ 53\<close> and
  \<open>expo\<close> at least \<open>-1074\<close>. Each operation computes the exact result as a sign, a natural
  number and a power of two, and rounds it once, to nearest with ties to even
  (\<open>round_double\<close>); a result too large becomes an infinity. Which NaN an invalid
  operation delivers depends on the hardware; here it is always \<open>quiet_nan\<close>, and nothing
  below depends on that choice. Each \<^verbatim>\<open>+\<close> and each \<^verbatim>\<open>*\<close> of the source is taken as one
  such operation; a fused multiply-add, which a compiler may choose for
  \<^verbatim>\<open>sum += a * b\<close>, is not modelled.
\<close>

datatype double = Double (bits: "64 word")

definition sign :: "double \<Rightarrow> bool" where
  "sign x \<longleftrightarrow> 2 ^ 63 \<le> unat (bits x)"

definition biased_exp :: "double \<Rightarrow> nat" where
  "biased_exp x = (unat (bits x) div 2 ^ 52) mod 2048"

definition fraction :: "double \<Rightarrow> nat" where
  "fraction x = unat (bits x) mod 2 ^ 52"

definition is_nan :: "double \<Rightarrow> bool" where
  "is_nan x \<longleftrightarrow> biased_exp x = 2047 \<and> fraction x \<noteq> 0"

definition is_inf :: "double \<Rightarrow> bool" where
  "is_inf x \<longleftrightarrow> biased_exp x = 2047 \<and> fraction x = 0"

definition is_finite :: "double \<Rightarrow> bool" where
  "is_finite x \<longleftrightarrow> biased_exp x < 2047"

definition mant :: "double \<Rightarrow> nat" where
  "mant x = (if biased_exp x = 0 then fraction x else 2 ^ 52 + fraction x)"

definition expo :: "double \<Rightarrow> int" where
  "expo x = (if biased_exp x = 0 then - 1074 else int (biased_exp x) - 1075)"

definition pack :: "bool \<Rightarrow> nat \<Rightarrow> double" where
  "pack s w = Double (of_nat ((if s then 2 ^ 63 else 0) + w))"

definition signed_zero :: "bool \<Rightarrow> double" where
  "signed_zero s = pack s 0"

definition infinity :: "bool \<Rightarrow> double" where
  "infinity s = pack s (2047 * 2 ^ 52)"

definition quiet_nan :: double where
  "quiet_nan = pack False (2047 * 2 ^ 52 + 2 ^ 51)"

text \<open>
  \<open>bitlen m\<close> is the number of binary digits of \<open>m\<close>, and \<open>rne m d\<close> is \<open>m / 2 ^ d\<close>
  rounded to the nearest natural number, ties to even. \<open>round_double s m e\<close> rounds
  \<open>m * 2 ^ e\<close> (\<open>m > 0\<close>): \<open>q\<close> is the exponent of the last place kept, \<open>mr\<close> the rounded
  mantissa, and \<open>(q + 1074) * 2 ^ 52 + mr\<close> the exponent and fraction fields at once (the
  leading bit of a normal \<open>mr\<close>, and a carry out of the rounding, add into the exponent
  field).
\<close>

fun bitlen :: "nat \<Rightarrow> nat" where
  "bitlen m = (if m = 0 then 0 else Suc (bitlen (m div 2)))"

declare bitlen.simps [simp del]

definition rne :: "nat \<Rightarrow> nat \<Rightarrow> nat" where
  "rne m d =
     (let q = m div 2 ^ d; r = m mod 2 ^ d; h = 2 ^ (d - 1)
      in if h < r \<or> (r = h \<and> odd q) then q + 1 else q)"

definition round_double :: "bool \<Rightarrow> nat \<Rightarrow> int \<Rightarrow> double" where
  "round_double s m e =
     (let q = max (e + int (bitlen m) - 53) (- 1074);
          mr = (if q \<le> e then m * 2 ^ nat (e - q) else rne m (nat (q - e)));
          w = nat (q + 1074) * 2 ^ 52 + mr
      in if w < 2047 * 2 ^ 52 then pack s w else infinity s)"

definition signed_mant :: "double \<Rightarrow> int \<Rightarrow> int" where
  "signed_mant x e = (if sign x then - 1 else 1) * int (mant x) * 2 ^ nat (expo x - e)"

definition dadd :: "double \<Rightarrow> double \<Rightarrow> double" where
  "dadd a b =
     (if is_nan a \<or> is_nan b then quiet_nan
      else if is_inf a then (if is_inf b \<and> sign a \<noteq> sign b then quiet_nan else a)
      else if is_inf b then b
      else
        (let e = min (expo a) (expo b); t = signed_mant a e + signed_mant b e
         in if t = 0 then signed_zero (sign a \<and> sign b)
            else round_double (t < 0) (nat \<bar>t\<bar>) e))"

definition dmul :: "double \<Rightarrow> double \<Rightarrow> double" where
  "dmul a b =
     (if is_nan a \<or> is_nan b then quiet_nan
      else if is_inf a \<or> is_inf b then
        (if mant a = 0 \<or> mant b = 0 then quiet_nan else infinity (sign a \<noteq> sign b))
      else if mant a = 0 \<or> mant b = 0 then signed_zero (sign a \<noteq> sign b)
      else round_double (sign a \<noteq> sign b) (mant a * mant b) (expo a + expo b))"

instantiation double :: "{zero, one, plus, times}"
begin

definition zero_double :: double where "zero_double = Double 0"
definition one_double :: double where "one_double = Double 0x3FF0000000000000"
definition plus_double :: "double \<Rightarrow> double \<Rightarrow> double" where "plus_double = dadd"
definition times_double :: "double \<Rightarrow> double \<Rightarrow> double" where "times_double = dmul"

instance ..

end


section \<open>Specification-level definitions\<close>

text \<open>
  The words of the specification, to compare the code with: the transpose
  \<open>T[i][j] = M[j][i]\<close>, the product cell "\<open>R[i][j] = \<Sum>\<^sub>k A[i][k] * B[k][j]\<close>, accumulated
  into a local scalar" over \<open>k = 0, ..., n - 1\<close> in this order (\<open>cell\<close>; \<open>cellT\<close> reads the
  transposed operand), the values a generator delivers (\<open>draws\<close>) and its state after
  them (\<open>after\<close>), the identity matrix, and the real number a finite \<open>double\<close> stands
  for (\<open>valof\<close>).
\<close>

definition transposed :: "'a list \<Rightarrow> nat \<Rightarrow> 'a list" where
  "transposed M n = map (\<lambda>p. M ! ((p mod n) * n + p div n)) [0..<n * n]"

definition cell :: "('a::{zero,plus,times}) list \<Rightarrow> 'a list \<Rightarrow> nat \<Rightarrow> nat \<Rightarrow> nat \<Rightarrow> 'a" where
  "cell A B n i j = foldl (\<lambda>s k. s + A ! (i * n + k) * B ! (k * n + j)) 0 [0..<n]"

definition matmul :: "('a::{zero,plus,times}) list \<Rightarrow> 'a list \<Rightarrow> nat \<Rightarrow> 'a list" where
  "matmul A B n = map (\<lambda>p. cell A B n (p div n) (p mod n)) [0..<n * n]"

definition cellT :: "('a::{zero,plus,times}) list \<Rightarrow> 'a list \<Rightarrow> nat \<Rightarrow> nat \<Rightarrow> nat \<Rightarrow> 'a" where
  "cellT A T n i j = foldl (\<lambda>s k. s + A ! (i * n + k) * T ! (j * n + k)) 0 [0..<n]"

definition matmulT :: "('a::{zero,plus,times}) list \<Rightarrow> 'a list \<Rightarrow> nat \<Rightarrow> 'a list" where
  "matmulT A T n = map (\<lambda>p. cellT A T n (p div n) (p mod n)) [0..<n * n]"

fun draws :: "('g \<Rightarrow> 'a \<times> 'g) \<Rightarrow> 'g \<Rightarrow> nat \<Rightarrow> 'a list" where
  "draws d g 0 = []"
| "draws d g (Suc k) = fst (d g) # draws d (snd (d g)) k"

fun after :: "('g \<Rightarrow> 'a \<times> 'g) \<Rightarrow> 'g \<Rightarrow> nat \<Rightarrow> 'g" where
  "after d g 0 = g"
| "after d g (Suc k) = after d (snd (d g)) k"

definition mul1_of :: "('g, 'a) platform \<Rightarrow> nat \<Rightarrow> 'a list" where
  "mul1_of pf n = draws (uniform_real pf) (mt19937 pf 89899898) (n * n)"

definition mul2_of :: "('g, 'a) platform \<Rightarrow> nat \<Rightarrow> 'a list" where
  "mul2_of pf n =
     draws (uniform_real pf) (after (uniform_real pf) (mt19937 pf 89899898) (n * n)) (n * n)"

definition is_zero :: "double \<Rightarrow> bool" where
  "is_zero x \<longleftrightarrow> biased_exp x = 0 \<and> fraction x = 0"

definition neg_zero :: double where
  "neg_zero = Double 0x8000000000000000"

definition valof :: "double \<Rightarrow> real" where
  "valof x = (if sign x then - 1 else 1) * real (mant x) * 2 powi expo x"

definition in_unit :: "double \<Rightarrow> bool" where
  "in_unit x \<longleftrightarrow> is_finite x \<and> 0 \<le> valof x \<and> valof x < 1"

definition nonneg_le :: "double \<Rightarrow> nat \<Rightarrow> bool" where
  "nonneg_le x N \<longleftrightarrow> is_finite x \<and> 0 \<le> valof x \<and> valof x \<le> real N"

definition identity :: "nat \<Rightarrow> ('a::{zero,one}) list" where
  "identity n = map (\<lambda>p. if p div n = p mod n then 1 else 0) [0..<n * n]"

section \<open>Lemmas\<close>

declare buildTranspose_j.simps [simp del] buildTranspose_i.simps [simp del]

lemma cell_lt: "i < n \<Longrightarrow> j < n \<Longrightarrow> i * n + j < n * (n::nat)"
proof -
  assume a: "i < n" "j < n"
  then have "i * n + j < i * n + n" by simp
  also have "\<dots> = Suc i * n" by simp
  also from a have "\<dots> \<le> n * n" by (metis Suc_leI mult_le_mono1)
  finally show ?thesis .
qed

lemma index_Inr: "row * n + col \<le> INT_MAX \<Longrightarrow> index n row col = Inr (row * n + col)"
  by (simp add: index_def)

lemma index_cell: "n * n \<le> INT_MAX \<Longrightarrow> i < n \<Longrightarrow> j < n \<Longrightarrow> index n i j = Inr (i * n + j)"
  using cell_lt [of i n j] by (simp add: index_def)

lemma fill_next:
  "p < length F \<Longrightarrow> length R = length F \<Longrightarrow>
   (take p F @ drop p R)[p := F ! p] = take (Suc p) F @ drop (Suc p) R"
  by (simp add: list_update_append take_Suc_conv_app_nth upd_conv_take_nth_drop drop_Suc
      flip: drop_drop) (metis Cons_nth_drop_Suc drop_Suc list.sel(3) tl_drop)

lemma bindE_Inr [simp]: "bindE (Inr x) f = f x"
  by (simp add: bindE_def)

lemma bindE_Inl [simp]: "bindE (Inl e) f = Inl e"
  by (simp add: bindE_def)

lemma transposed_nth:
  "i < n \<Longrightarrow> j < n \<Longrightarrow> transposed M n ! (i * n + j) = M ! (j * n + i)"
  using cell_lt [of i n j] by (simp add: transposed_def)

lemma length_transposed [simp]: "length (transposed M n) = n * n"
  by (simp add: transposed_def)

lemma buildTranspose_j_fill:
  assumes "mul \<noteq> mulT" "n * n \<le> INT_MAX" "length (vec m mul) = n * n" "length R = n * n"
    "i < n" "j \<le> n"
    "vec m mulT = take (i * n + j) (transposed (vec m mul) n) @ drop (i * n + j) R"
  shows "buildTranspose_j m mul mulT n i j =
    Inr (m\<lparr>vec := (vec m)(mulT := take (i * n + n) (transposed (vec m mul) n) @ drop (i * n + n) R),
           stores := stores m @ map (\<lambda>c. (mulT, i * n + c)) [j..<n]\<rparr>)"
  using assms
proof (induction "n - j" arbitrary: j m)
  case 0
  then have "j = n" by simp
  with 0 have "(vec m)(mulT := take (i * n + n) (transposed (vec m mul) n) @ drop (i * n + n) R) = vec m"
    by (metis fun_upd_triv)
  with \<open>j = n\<close> show ?case by (subst buildTranspose_j.simps) simp
next
  case (Suc d)
  then have jn: "j < n" by simp
  let ?F = "transposed (vec m mul) n"
  let ?p = "i * n + j"
  have p: "?p < n * n" using cell_lt Suc.prems(5) jn by blast
  let ?m' = "m\<lparr>vec := (vec m)(mulT := take (Suc ?p) ?F @ drop (Suc ?p) R),
                 stores := stores m @ [(mulT, ?p)]\<rparr>"
  have st: "store m mulT ?p (vec m mul ! (j * n + i)) = Inr ?m'"
    using p Suc.prems fill_next [of ?p ?F R] transposed_nth [of i n j "vec m mul"] jn
    by (simp add: store_def)
  have ld: "load m mul (j * n + i) = Inr (vec m mul ! (j * n + i))"
    using cell_lt [of j n i] jn Suc.prems by (simp add: load_def)
  have ih: "buildTranspose_j ?m' mul mulT n i (Suc j) =
    Inr (?m'\<lparr>vec := (vec ?m')(mulT := take (i * n + n) (transposed (vec ?m' mul) n) @ drop (i * n + n) R),
           stores := stores ?m' @ map (\<lambda>c. (mulT, i * n + c)) [Suc j..<n]\<rparr>)"
    using Suc.prems Suc.hyps(2) jn by (intro Suc.hyps(1)) auto
  show ?case
    using jn Suc.prems ih st ld
    by (subst buildTranspose_j.simps) (simp add: index_cell upt_conv_Cons)
qed

lemma row_stores: "map (\<lambda>c. (a, (b::nat) + c)) [0..<n] = map (Pair a) [b..<b + n]"
proof -
  have "[b..<b + n] = map (\<lambda>c. c + b) [0..<n]" by (simp add: map_add_upt add.commute)
  then show ?thesis by (simp add: o_def add.commute)
qed

lemma buildTranspose_i_fill:
  assumes "mul \<noteq> mulT" "n * n \<le> INT_MAX" "length (vec m mul) = n * n" "length R = n * n"
    "i \<le> n"
    "vec m mulT = take (i * n) (transposed (vec m mul) n) @ drop (i * n) R"
  shows "buildTranspose_i m mul mulT n i =
    Inr (m\<lparr>vec := (vec m)(mulT := transposed (vec m mul) n),
           stores := stores m @ map (Pair mulT) [i * n..<n * n]\<rparr>)"
  using assms
proof (induction "n - i" arbitrary: i m)
  case 0
  then have "i = n" by simp
  with 0 have "(vec m)(mulT := transposed (vec m mul) n) = vec m"
    by (metis append_Nil2 drop_all fun_upd_triv length_transposed order_refl take_all)
  with \<open>i = n\<close> show ?case by (subst buildTranspose_i.simps) simp
next
  case (Suc d)
  then have lt: "i < n" by simp
  let ?F = "transposed (vec m mul) n"
  let ?m' = "m\<lparr>vec := (vec m)(mulT := take (i * n + n) ?F @ drop (i * n + n) R),
                 stores := stores m @ map (Pair mulT) [i * n..<i * n + n]\<rparr>"
  have row: "buildTranspose_j m mul mulT n i 0 = Inr ?m'"
    using buildTranspose_j_fill [of mul mulT n m R i 0] Suc.prems lt
    by (simp add: row_stores)
  have ih: "buildTranspose_i ?m' mul mulT n (Suc i) =
    Inr (?m'\<lparr>vec := (vec ?m')(mulT := transposed (vec ?m' mul) n),
           stores := stores ?m' @ map (Pair mulT) [Suc i * n..<n * n]\<rparr>)"
    using Suc.prems Suc.hyps(2) lt by (intro Suc.hyps(1)) (auto simp: add.commute)
  have le: "i * n + n \<le> n * n"
    using lt by (metis Suc_leI mult_Suc mult_le_mono1 add.commute)
  have "[i * n..<n * n] = [i * n..<i * n + n] @ [i * n + n..<n * n]"
    using le by (metis le_add1 le_Suc_ex upt_add_eq_append)
  then show ?case
    using lt Suc.prems ih row
    by (subst buildTranspose_i.simps) (simp add: add.commute)
qed

lemma buildTranspose_result:
  assumes "mul \<noteq> mulT" "n * n \<le> INT_MAX" "length (vec m mul) = n * n"
    "length (vec m mulT) = n * n"
  shows "buildTranspose m mul mulT n =
    Inr (m\<lparr>vec := (vec m)(mulT := transposed (vec m mul) n),
           stores := stores m @ map (Pair mulT) [0..<n * n]\<rparr>)"
  using buildTranspose_i_fill [of mul mulT n m "vec m mulT" 0] assms
  by (simp add: buildTranspose_def)

declare multiplyNaive_k.simps [simp del] multiplyNaive_j.simps [simp del]
  multiplyNaive_i.simps [simp del] multiplyWithTranspose_k.simps [simp del]
  multiplyWithTranspose_j.simps [simp del] multiplyWithTranspose_i.simps [simp del]

lemma length_matmul [simp]: "length (matmul A B n) = n * n"
  by (simp add: matmul_def)

lemma length_matmulT [simp]: "length (matmulT A T n) = n * n"
  by (simp add: matmulT_def)

lemma matmul_nth: "i < n \<Longrightarrow> j < n \<Longrightarrow> matmul A B n ! (i * n + j) = cell A B n i j"
  using cell_lt [of i n j] by (simp add: matmul_def)

lemma matmulT_nth: "i < n \<Longrightarrow> j < n \<Longrightarrow> matmulT A T n ! (i * n + j) = cellT A T n i j"
  using cell_lt [of i n j] by (simp add: matmulT_def)

lemma multiplyNaive_k_fold:
  assumes "n * n \<le> INT_MAX" "length (vec m mul1) = n * n" "length (vec m mul2) = n * n"
    "i < n" "j < n" "k \<le> n"
  shows "multiplyNaive_k m mul1 mul2 n i j k acc =
    Inr (foldl (\<lambda>s k. s + vec m mul1 ! (i * n + k) * vec m mul2 ! (k * n + j)) acc [k..<n])"
  using assms
proof (induction "n - k" arbitrary: k acc)
  case 0
  then show ?case by (subst multiplyNaive_k.simps) simp
next
  case (Suc d)
  then have lt: "k < n" by simp
  have "load m mul1 (i * n + k) = Inr (vec m mul1 ! (i * n + k))"
    using cell_lt [of i n k] lt Suc.prems by (simp add: load_def)
  moreover have "load m mul2 (k * n + j) = Inr (vec m mul2 ! (k * n + j))"
    using cell_lt [of k n j] lt Suc.prems by (simp add: load_def)
  moreover have "multiplyNaive_k m mul1 mul2 n i j (Suc k)
        (acc + vec m mul1 ! (i * n + k) * vec m mul2 ! (k * n + j)) =
      Inr (foldl (\<lambda>s k. s + vec m mul1 ! (i * n + k) * vec m mul2 ! (k * n + j))
        (acc + vec m mul1 ! (i * n + k) * vec m mul2 ! (k * n + j)) [Suc k..<n])"
    using Suc.prems Suc.hyps(2) lt by (intro Suc.hyps(1)) auto
  ultimately show ?case
    using lt Suc.prems
    by (subst multiplyNaive_k.simps) (simp add: index_cell upt_conv_Cons)
qed

lemma multiplyNaive_j_fill:
  assumes "res \<noteq> mul1" "res \<noteq> mul2" "n * n \<le> INT_MAX"
    "length (vec m mul1) = n * n" "length (vec m mul2) = n * n" "length R = n * n"
    "i < n" "j \<le> n"
    "vec m res = take (i * n + j) (matmul (vec m mul1) (vec m mul2) n) @ drop (i * n + j) R"
  shows "multiplyNaive_j m mul1 mul2 res n i j =
    Inr (m\<lparr>vec := (vec m)(res := take (i * n + n) (matmul (vec m mul1) (vec m mul2) n)
                                    @ drop (i * n + n) R),
           stores := stores m @ map (\<lambda>c. (res, i * n + c)) [j..<n]\<rparr>)"
  using assms
proof (induction "n - j" arbitrary: j m)
  case 0
  then have "j = n" by simp
  with 0 have "(vec m)(res := take (i * n + n) (matmul (vec m mul1) (vec m mul2) n)
      @ drop (i * n + n) R) = vec m"
    by (metis fun_upd_triv)
  with \<open>j = n\<close> show ?case by (subst multiplyNaive_j.simps) simp
next
  case (Suc d)
  then have jn: "j < n" by simp
  let ?F = "matmul (vec m mul1) (vec m mul2) n"
  let ?p = "i * n + j"
  have p: "?p < n * n" using cell_lt Suc.prems(7) jn by blast
  let ?m' = "m\<lparr>vec := (vec m)(res := take (Suc ?p) ?F @ drop (Suc ?p) R),
                 stores := stores m @ [(res, ?p)]\<rparr>"
  have inner: "multiplyNaive_k m mul1 mul2 n i j 0 0 = Inr (cell (vec m mul1) (vec m mul2) n i j)"
    using multiplyNaive_k_fold [of n m mul1 mul2 i j 0 0] Suc.prems jn by (simp add: cell_def)
  have st: "store m res ?p (cell (vec m mul1) (vec m mul2) n i j) = Inr ?m'"
    using p Suc.prems fill_next [of ?p ?F R] matmul_nth [of i n j "vec m mul1" "vec m mul2"] jn
    by (simp add: store_def)
  have ih: "multiplyNaive_j ?m' mul1 mul2 res n i (Suc j) =
    Inr (?m'\<lparr>vec := (vec ?m')(res := take (i * n + n) (matmul (vec ?m' mul1) (vec ?m' mul2) n)
                                       @ drop (i * n + n) R),
           stores := stores ?m' @ map (\<lambda>c. (res, i * n + c)) [Suc j..<n]\<rparr>)"
    using Suc.prems Suc.hyps(2) jn by (intro Suc.hyps(1)) auto
  show ?case
    using jn Suc.prems ih st inner
    by (subst multiplyNaive_j.simps) (simp add: index_cell upt_conv_Cons)
qed

lemma multiplyNaive_i_fill:
  assumes "res \<noteq> mul1" "res \<noteq> mul2" "n * n \<le> INT_MAX"
    "length (vec m mul1) = n * n" "length (vec m mul2) = n * n" "length R = n * n"
    "i \<le> n"
    "vec m res = take (i * n) (matmul (vec m mul1) (vec m mul2) n) @ drop (i * n) R"
  shows "multiplyNaive_i m mul1 mul2 res n i =
    Inr (m\<lparr>vec := (vec m)(res := matmul (vec m mul1) (vec m mul2) n),
           stores := stores m @ map (Pair res) [i * n..<n * n]\<rparr>)"
  using assms
proof (induction "n - i" arbitrary: i m)
  case 0
  then have "i = n" by simp
  with 0 have "(vec m)(res := matmul (vec m mul1) (vec m mul2) n) = vec m"
    by (metis append_Nil2 drop_all fun_upd_triv length_matmul order_refl take_all)
  with \<open>i = n\<close> show ?case by (subst multiplyNaive_i.simps) simp
next
  case (Suc d)
  then have lt: "i < n" by simp
  let ?F = "matmul (vec m mul1) (vec m mul2) n"
  let ?m' = "m\<lparr>vec := (vec m)(res := take (i * n + n) ?F @ drop (i * n + n) R),
                 stores := stores m @ map (Pair res) [i * n..<i * n + n]\<rparr>"
  have row: "multiplyNaive_j m mul1 mul2 res n i 0 = Inr ?m'"
    using multiplyNaive_j_fill [of res mul1 mul2 n m R i 0] Suc.prems lt
    by (simp add: row_stores)
  have ih: "multiplyNaive_i ?m' mul1 mul2 res n (Suc i) =
    Inr (?m'\<lparr>vec := (vec ?m')(res := matmul (vec ?m' mul1) (vec ?m' mul2) n),
           stores := stores ?m' @ map (Pair res) [Suc i * n..<n * n]\<rparr>)"
    using Suc.prems Suc.hyps(2) lt by (intro Suc.hyps(1)) (auto simp: add.commute)
  have le: "i * n + n \<le> n * n"
    using lt by (metis Suc_leI mult_Suc mult_le_mono1 add.commute)
  have "[i * n..<n * n] = [i * n..<i * n + n] @ [i * n + n..<n * n]"
    using le by (metis le_add1 le_Suc_ex upt_add_eq_append)
  then show ?case
    using lt Suc.prems ih row
    by (subst multiplyNaive_i.simps) (simp add: add.commute)
qed

lemma multiplyNaive_result:
  assumes "res \<noteq> mul1" "res \<noteq> mul2" "n * n \<le> INT_MAX"
    "length (vec m mul1) = n * n" "length (vec m mul2) = n * n" "length (vec m res) = n * n"
  shows "multiplyNaive m mul1 mul2 res n =
    Inr (m\<lparr>vec := (vec m)(res := matmul (vec m mul1) (vec m mul2) n),
           stores := stores m @ map (Pair res) [0..<n * n]\<rparr>)"
  using multiplyNaive_i_fill [of res mul1 mul2 n m "vec m res" 0] assms
  by (simp add: multiplyNaive_def)

lemma bindE_eq_Inr: "bindE r f = Inr y \<longleftrightarrow> (\<exists>x. r = Inr x \<and> f x = Inr y)"
  by (cases r) (simp_all add: bindE_def)

lemma index_eq_Inr: "index n row col = Inr p \<longleftrightarrow> row * n + col \<le> INT_MAX \<and> p = row * n + col"
  by (auto simp: index_def)

lemma buildTranspose_j_in_int:
  "buildTranspose_j m mul mulT n i j = Inr m' \<Longrightarrow> j \<le> c \<Longrightarrow> c < n \<Longrightarrow> i * n + c \<le> INT_MAX"
proof (induction "n - j" arbitrary: j m)
  case 0
  then show ?case by simp
next
  case (Suc d)
  then have lt: "j < n" by simp
  from Suc.prems(1) lt obtain m'' where
    here: "i * n + j \<le> INT_MAX" and rest: "buildTranspose_j m'' mul mulT n i (Suc j) = Inr m'"
    by (subst (asm) buildTranspose_j.simps) (auto simp: bindE_eq_Inr index_eq_Inr)
  show ?case
  proof (cases "c = j")
    case True
    with here show ?thesis by simp
  next
    case False
    with Suc.prems have "Suc j \<le> c" by simp
    moreover from Suc.hyps(2) have "d = n - Suc j" by simp
    ultimately show ?thesis using Suc.hyps(1) rest Suc.prems(3) by blast
  qed
qed

lemma buildTranspose_i_in_int:
  "buildTranspose_i m mul mulT n i = Inr m' \<Longrightarrow> i \<le> r \<Longrightarrow> r < n \<Longrightarrow> c < n \<Longrightarrow>
   r * n + c \<le> INT_MAX"
proof (induction "n - i" arbitrary: i m)
  case 0
  then show ?case by simp
next
  case (Suc d)
  then have lt: "i < n" by simp
  from Suc.prems(1) lt obtain m'' where
    row: "buildTranspose_j m mul mulT n i 0 = Inr m''" and
    rest: "buildTranspose_i m'' mul mulT n (Suc i) = Inr m'"
    by (subst (asm) buildTranspose_i.simps) (auto simp: bindE_eq_Inr)
  show ?case
  proof (cases "r = i")
    case True
    with row Suc.prems(4) show ?thesis using buildTranspose_j_in_int by blast
  next
    case False
    with Suc.prems have "Suc i \<le> r" by simp
    moreover from Suc.hyps(2) have "d = n - Suc i" by simp
    ultimately show ?thesis using Suc.hyps(1) rest Suc.prems(3,4) by blast
  qed
qed

lemma buildTranspose_in_int:
  assumes "buildTranspose m mul mulT n = Inr m'" "0 < n"
  shows "n * n \<le> Suc INT_MAX"
proof -
  have "(n - 1) * n + (n - 1) \<le> INT_MAX"
    using buildTranspose_i_in_int [of m mul mulT n 0 m' "n - 1" "n - 1"] assms
    by (simp add: buildTranspose_def)
  moreover have "(n - 1) * n + (n - 1) = n * n - 1"
    using assms(2) by (cases n) simp_all
  ultimately show ?thesis by simp
qed

lemma multiplyNaive_j_in_int:
  "multiplyNaive_j m mul1 mul2 res n i j = Inr m' \<Longrightarrow> j \<le> c \<Longrightarrow> c < n \<Longrightarrow> i * n + c \<le> INT_MAX"
proof (induction "n - j" arbitrary: j m)
  case 0
  then show ?case by simp
next
  case (Suc d)
  then have lt: "j < n" by simp
  from Suc.prems(1) lt obtain m'' where
    here: "i * n + j \<le> INT_MAX" and rest: "multiplyNaive_j m'' mul1 mul2 res n i (Suc j) = Inr m'"
    by (subst (asm) multiplyNaive_j.simps) (auto simp: bindE_eq_Inr index_eq_Inr)
  show ?case
  proof (cases "c = j")
    case True
    with here show ?thesis by simp
  next
    case False
    with Suc.prems have "Suc j \<le> c" by simp
    moreover from Suc.hyps(2) have "d = n - Suc j" by simp
    ultimately show ?thesis using Suc.hyps(1) rest Suc.prems(3) by blast
  qed
qed

lemma multiplyNaive_i_in_int:
  "multiplyNaive_i m mul1 mul2 res n i = Inr m' \<Longrightarrow> i \<le> r \<Longrightarrow> r < n \<Longrightarrow> c < n \<Longrightarrow>
   r * n + c \<le> INT_MAX"
proof (induction "n - i" arbitrary: i m)
  case 0
  then show ?case by simp
next
  case (Suc d)
  then have lt: "i < n" by simp
  from Suc.prems(1) lt obtain m'' where
    row: "multiplyNaive_j m mul1 mul2 res n i 0 = Inr m''" and
    rest: "multiplyNaive_i m'' mul1 mul2 res n (Suc i) = Inr m'"
    by (subst (asm) multiplyNaive_i.simps) (auto simp: bindE_eq_Inr)
  show ?case
  proof (cases "r = i")
    case True
    with row Suc.prems(4) show ?thesis using multiplyNaive_j_in_int by blast
  next
    case False
    with Suc.prems have "Suc i \<le> r" by simp
    moreover from Suc.hyps(2) have "d = n - Suc i" by simp
    ultimately show ?thesis using Suc.hyps(1) rest Suc.prems(3,4) by blast
  qed
qed

lemma square_pred: "0 < n \<Longrightarrow> (n - 1) * n + (n - 1) = n * n - (1::nat)"
  by (cases n) simp_all

lemma multiplyNaive_in_int:
  assumes "multiplyNaive m mul1 mul2 res n = Inr m'" "0 < n"
  shows "n * n \<le> Suc INT_MAX"
proof -
  have "(n - 1) * n + (n - 1) \<le> INT_MAX"
    using multiplyNaive_i_in_int [of m mul1 mul2 res n 0 m' "n - 1" "n - 1"] assms
    by (simp add: multiplyNaive_def)
  then show ?thesis using square_pred [OF assms(2)] by simp
qed


declare generate.simps [simp del] checksum.simps [simp del]

lemma length_draws [simp]: "length (draws d g k) = k"
  by (induction k arbitrary: g) simp_all

lemma generate_fill:
  assumes "length (vec m a) = sz" "i \<le> sz"
  shows "generate d m a sz i g =
    Inr (m\<lparr>vec := (vec m)(a := take i (vec m a) @ draws d g (sz - i)),
           stores := stores m @ map (Pair a) [i..<sz]\<rparr>, after d g (sz - i))"
  using assms
proof (induction "sz - i" arbitrary: i m g)
  case 0
  then have "i = sz" by simp
  with 0 have "(vec m)(a := vec m a) = vec m" by simp
  with \<open>i = sz\<close> 0 show ?case by (subst generate.simps) simp
next
  case (Suc k)
  then have lt: "i < sz" by simp
  obtain x g' where dg: "d g = (x, g')" by (cases "d g")
  let ?m' = "m\<lparr>vec := (vec m)(a := (vec m a)[i := x]), stores := stores m @ [(a, i)]\<rparr>"
  have st: "store m a i x = Inr ?m'" using lt Suc.prems by (simp add: store_def)
  have ih: "generate d ?m' a sz (Suc i) g' =
    Inr (?m'\<lparr>vec := (vec ?m')(a := take (Suc i) (vec ?m' a) @ draws d g' (sz - Suc i)),
           stores := stores ?m' @ map (Pair a) [Suc i..<sz]\<rparr>, after d g' (sz - Suc i))"
    using Suc.prems Suc.hyps(2) lt by (intro Suc.hyps(1)) auto
  have sz: "sz - i = Suc (sz - Suc i)" using lt by simp
  have tk: "take (Suc i) ((vec m a)[i := x]) = take i (vec m a) @ [x]"
    using lt Suc.prems by (simp add: take_Suc_conv_app_nth)
  show ?case
    using lt ih st dg tk
    by (subst generate.simps) (simp add: sz upt_conv_Cons)
qed

lemma checksum_fold:
  assumes "length (vec m res) = sz" "i \<le> sz"
  shows "checksum m res sz i acc = Inr (foldl (+) acc (drop i (vec m res)))"
  using assms
proof (induction "sz - i" arbitrary: i acc)
  case 0
  then show ?case by (subst checksum.simps) simp
next
  case (Suc k)
  then have lt: "i < sz" by simp
  have "checksum m res sz (Suc i) (acc + vec m res ! i) =
      Inr (foldl (+) (acc + vec m res ! i) (drop (Suc i) (vec m res)))"
    using Suc.prems Suc.hyps(2) lt by (intro Suc.hyps(1)) auto
  moreover have "drop i (vec m res) = vec m res ! i # drop (Suc i) (vec m res)"
    using lt Suc.prems by (simp add: Cons_nth_drop_Suc)
  ultimately show ?case
    using lt Suc.prems by (subst checksum.simps) (simp add: load_def)
qed

lemma multiplyWithTranspose_k_fold:
  assumes "n * n \<le> INT_MAX" "length (vec m mul1) = n * n" "length (vec m mul2T) = n * n"
    "i < n" "j < n" "k \<le> n"
  shows "multiplyWithTranspose_k m mul1 mul2T n i j k acc =
    Inr (foldl (\<lambda>s k. s + vec m mul1 ! (i * n + k) * vec m mul2T ! (j * n + k)) acc [k..<n])"
  using assms
proof (induction "n - k" arbitrary: k acc)
  case 0
  then show ?case by (subst multiplyWithTranspose_k.simps) simp
next
  case (Suc d)
  then have lt: "k < n" by simp
  have "load m mul1 (i * n + k) = Inr (vec m mul1 ! (i * n + k))"
    using cell_lt [of i n k] lt Suc.prems by (simp add: load_def)
  moreover have "load m mul2T (j * n + k) = Inr (vec m mul2T ! (j * n + k))"
    using cell_lt [of j n k] lt Suc.prems by (simp add: load_def)
  moreover have "multiplyWithTranspose_k m mul1 mul2T n i j (Suc k)
        (acc + vec m mul1 ! (i * n + k) * vec m mul2T ! (j * n + k)) =
      Inr (foldl (\<lambda>s k. s + vec m mul1 ! (i * n + k) * vec m mul2T ! (j * n + k))
        (acc + vec m mul1 ! (i * n + k) * vec m mul2T ! (j * n + k)) [Suc k..<n])"
    using Suc.prems Suc.hyps(2) lt by (intro Suc.hyps(1)) auto
  ultimately show ?case
    using lt Suc.prems
    by (subst multiplyWithTranspose_k.simps) (simp add: index_cell upt_conv_Cons)
qed

lemma multiplyWithTranspose_j_fill:
  assumes "res \<noteq> mul1" "res \<noteq> mul2T" "n * n \<le> INT_MAX"
    "length (vec m mul1) = n * n" "length (vec m mul2T) = n * n" "length R = n * n"
    "i < n" "j \<le> n"
    "vec m res = take (i * n + j) (matmulT (vec m mul1) (vec m mul2T) n) @ drop (i * n + j) R"
  shows "multiplyWithTranspose_j m mul1 mul2T res n i j =
    Inr (m\<lparr>vec := (vec m)(res := take (i * n + n) (matmulT (vec m mul1) (vec m mul2T) n)
                                    @ drop (i * n + n) R),
           stores := stores m @ map (\<lambda>c. (res, i * n + c)) [j..<n]\<rparr>)"
  using assms
proof (induction "n - j" arbitrary: j m)
  case 0
  then have "j = n" by simp
  with 0 have "(vec m)(res := take (i * n + n) (matmulT (vec m mul1) (vec m mul2T) n)
      @ drop (i * n + n) R) = vec m"
    by (metis fun_upd_triv)
  with \<open>j = n\<close> show ?case by (subst multiplyWithTranspose_j.simps) simp
next
  case (Suc d)
  then have jn: "j < n" by simp
  let ?F = "matmulT (vec m mul1) (vec m mul2T) n"
  let ?p = "i * n + j"
  have p: "?p < n * n" using cell_lt Suc.prems(7) jn by blast
  let ?m' = "m\<lparr>vec := (vec m)(res := take (Suc ?p) ?F @ drop (Suc ?p) R),
                 stores := stores m @ [(res, ?p)]\<rparr>"
  have inner: "multiplyWithTranspose_k m mul1 mul2T n i j 0 0 = Inr (cellT (vec m mul1) (vec m mul2T) n i j)"
    using multiplyWithTranspose_k_fold [of n m mul1 mul2T i j 0 0] Suc.prems jn by (simp add: cellT_def)
  have st: "store m res ?p (cellT (vec m mul1) (vec m mul2T) n i j) = Inr ?m'"
    using p Suc.prems fill_next [of ?p ?F R] matmulT_nth [of i n j "vec m mul1" "vec m mul2T"] jn
    by (simp add: store_def)
  have ih: "multiplyWithTranspose_j ?m' mul1 mul2T res n i (Suc j) =
    Inr (?m'\<lparr>vec := (vec ?m')(res := take (i * n + n) (matmulT (vec ?m' mul1) (vec ?m' mul2T) n)
                                       @ drop (i * n + n) R),
           stores := stores ?m' @ map (\<lambda>c. (res, i * n + c)) [Suc j..<n]\<rparr>)"
    using Suc.prems Suc.hyps(2) jn by (intro Suc.hyps(1)) auto
  show ?case
    using jn Suc.prems ih st inner
    by (subst multiplyWithTranspose_j.simps) (simp add: index_cell upt_conv_Cons)
qed

lemma multiplyWithTranspose_i_fill:
  assumes "res \<noteq> mul1" "res \<noteq> mul2T" "n * n \<le> INT_MAX"
    "length (vec m mul1) = n * n" "length (vec m mul2T) = n * n" "length R = n * n"
    "i \<le> n"
    "vec m res = take (i * n) (matmulT (vec m mul1) (vec m mul2T) n) @ drop (i * n) R"
  shows "multiplyWithTranspose_i m mul1 mul2T res n i =
    Inr (m\<lparr>vec := (vec m)(res := matmulT (vec m mul1) (vec m mul2T) n),
           stores := stores m @ map (Pair res) [i * n..<n * n]\<rparr>)"
  using assms
proof (induction "n - i" arbitrary: i m)
  case 0
  then have "i = n" by simp
  with 0 have "(vec m)(res := matmulT (vec m mul1) (vec m mul2T) n) = vec m"
    by (metis append_Nil2 drop_all fun_upd_triv length_matmulT order_refl take_all)
  with \<open>i = n\<close> show ?case by (subst multiplyWithTranspose_i.simps) simp
next
  case (Suc d)
  then have lt: "i < n" by simp
  let ?F = "matmulT (vec m mul1) (vec m mul2T) n"
  let ?m' = "m\<lparr>vec := (vec m)(res := take (i * n + n) ?F @ drop (i * n + n) R),
                 stores := stores m @ map (Pair res) [i * n..<i * n + n]\<rparr>"
  have row: "multiplyWithTranspose_j m mul1 mul2T res n i 0 = Inr ?m'"
    using multiplyWithTranspose_j_fill [of res mul1 mul2T n m R i 0] Suc.prems lt
    by (simp add: row_stores)
  have ih: "multiplyWithTranspose_i ?m' mul1 mul2T res n (Suc i) =
    Inr (?m'\<lparr>vec := (vec ?m')(res := matmulT (vec ?m' mul1) (vec ?m' mul2T) n),
           stores := stores ?m' @ map (Pair res) [Suc i * n..<n * n]\<rparr>)"
    using Suc.prems Suc.hyps(2) lt by (intro Suc.hyps(1)) (auto simp: add.commute)
  have le: "i * n + n \<le> n * n"
    using lt by (metis Suc_leI mult_Suc mult_le_mono1 add.commute)
  have "[i * n..<n * n] = [i * n..<i * n + n] @ [i * n + n..<n * n]"
    using le by (metis le_add1 le_Suc_ex upt_add_eq_append)
  then show ?case
    using lt Suc.prems ih row
    by (subst multiplyWithTranspose_i.simps) (simp add: add.commute)
qed

lemma multiplyWithTranspose_result:
  assumes "res \<noteq> mul1" "res \<noteq> mul2T" "n * n \<le> INT_MAX"
    "length (vec m mul1) = n * n" "length (vec m mul2T) = n * n" "length (vec m res) = n * n"
  shows "multiplyWithTranspose m mul1 mul2T res n =
    Inr (m\<lparr>vec := (vec m)(res := matmulT (vec m mul1) (vec m mul2T) n),
           stores := stores m @ map (Pair res) [0..<n * n]\<rparr>)"
  using multiplyWithTranspose_i_fill [of res mul1 mul2T n m "vec m res" 0] assms
  by (simp add: multiplyWithTranspose_def)


lemma multiplyWithTranspose_j_in_int:
  "multiplyWithTranspose_j m mul1 mul2T res n i j = Inr m' \<Longrightarrow> j \<le> c \<Longrightarrow> c < n \<Longrightarrow> i * n + c \<le> INT_MAX"
proof (induction "n - j" arbitrary: j m)
  case 0
  then show ?case by simp
next
  case (Suc d)
  then have lt: "j < n" by simp
  from Suc.prems(1) lt obtain m'' where
    here: "i * n + j \<le> INT_MAX" and rest: "multiplyWithTranspose_j m'' mul1 mul2T res n i (Suc j) = Inr m'"
    by (subst (asm) multiplyWithTranspose_j.simps) (auto simp: bindE_eq_Inr index_eq_Inr)
  show ?case
  proof (cases "c = j")
    case True
    with here show ?thesis by simp
  next
    case False
    with Suc.prems have "Suc j \<le> c" by simp
    moreover from Suc.hyps(2) have "d = n - Suc j" by simp
    ultimately show ?thesis using Suc.hyps(1) rest Suc.prems(3) by blast
  qed
qed

lemma multiplyWithTranspose_i_in_int:
  "multiplyWithTranspose_i m mul1 mul2T res n i = Inr m' \<Longrightarrow> i \<le> r \<Longrightarrow> r < n \<Longrightarrow> c < n \<Longrightarrow>
   r * n + c \<le> INT_MAX"
proof (induction "n - i" arbitrary: i m)
  case 0
  then show ?case by simp
next
  case (Suc d)
  then have lt: "i < n" by simp
  from Suc.prems(1) lt obtain m'' where
    row: "multiplyWithTranspose_j m mul1 mul2T res n i 0 = Inr m''" and
    rest: "multiplyWithTranspose_i m'' mul1 mul2T res n (Suc i) = Inr m'"
    by (subst (asm) multiplyWithTranspose_i.simps) (auto simp: bindE_eq_Inr)
  show ?case
  proof (cases "r = i")
    case True
    with row Suc.prems(4) show ?thesis using multiplyWithTranspose_j_in_int by blast
  next
    case False
    with Suc.prems have "Suc i \<le> r" by simp
    moreover from Suc.hyps(2) have "d = n - Suc i" by simp
    ultimately show ?thesis using Suc.hyps(1) rest Suc.prems(3,4) by blast
  qed
qed

lemma multiplyWithTranspose_in_int:
  assumes "multiplyWithTranspose m mul1 mul2T res n = Inr m'" "0 < n"
  shows "n * n \<le> Suc INT_MAX"
proof -
  have "(n - 1) * n + (n - 1) \<le> INT_MAX"
    using multiplyWithTranspose_i_in_int [of m mul1 mul2T res n 0 m' "n - 1" "n - 1"] assms
    by (simp add: multiplyWithTranspose_def)
  then show ?thesis using square_pred [OF assms(2)] by simp
qed


lemma cell_transposed:
  assumes "j < n"
  shows "cellT A (transposed B n) n i j = cell A B n i j"
proof -
  have "foldl (\<lambda>s k. s + A ! (i * n + k) * transposed B n ! (j * n + k)) acc ks =
        foldl (\<lambda>s k. s + A ! (i * n + k) * B ! (k * n + j)) acc ks"
    if "\<forall>k\<in>set ks. k < n" for ks acc
    using that
  proof (induction ks arbitrary: acc)
    case Nil
    then show ?case by simp
  next
    case (Cons k ks)
    then have "k < n" by simp
    with assms have "transposed B n ! (j * n + k) = B ! (k * n + j)"
      by (simp add: transposed_nth)
    with Cons show ?case by simp
  qed
  from this [of "[0..<n]" 0] show ?thesis by (simp add: cell_def cellT_def)
qed

lemma mod_div_cell: "p < n * n \<Longrightarrow> p mod n < n \<and> p div n < (n::nat)"
  by (metis less_mult_imp_div_less mod_less_divisor mult_is_0 not_gr_zero not_less_zero)

lemma matmulT_transposed: "matmulT A (transposed B n) n = matmul A B n"
  by (simp add: matmul_def matmulT_def cell_transposed mod_div_cell)

lemma transposed_involution:
  assumes "length M = n * n"
  shows "transposed (transposed M n) n = M"
proof (rule nth_equalityI)
  show "length (transposed (transposed M n) n) = length M" using assms by simp
next
  fix p assume "p < length (transposed (transposed M n) n)"
  then have p: "p < n * n" by simp
  then have b: "p mod n < n" "p div n < n" using mod_div_cell by blast+
  have "transposed (transposed M n) n ! p = transposed M n ! (p mod n * n + p div n)"
    using p by (simp add: transposed_def)
  also have "\<dots> = M ! (p div n * n + p mod n)" using b by (simp add: transposed_nth)
  also have "\<dots> = M ! p" by simp
  finally show "transposed (transposed M n) n ! p = M ! p" .
qed





lemma addr_distinct [simp]:
  "v_mul1 \<noteq> v_mul2" "v_mul1 \<noteq> v_resA" "v_mul1 \<noteq> v_resB" "v_mul1 \<noteq> v_mul2T"
  "v_mul2 \<noteq> v_mul1" "v_mul2 \<noteq> v_resA" "v_mul2 \<noteq> v_resB" "v_mul2 \<noteq> v_mul2T"
  "v_resA \<noteq> v_mul1" "v_resA \<noteq> v_mul2" "v_resA \<noteq> v_resB" "v_resA \<noteq> v_mul2T"
  "v_resB \<noteq> v_mul1" "v_resB \<noteq> v_mul2" "v_resB \<noteq> v_resA" "v_resB \<noteq> v_mul2T"
  "v_mul2T \<noteq> v_mul1" "v_mul2T \<noteq> v_mul2" "v_mul2T \<noteq> v_resA" "v_mul2T \<noteq> v_resB"
  by (simp_all add: v_mul1_def v_mul2_def v_resA_def v_resB_def v_mul2T_def)

lemma generated:
  fixes pf :: "('g, 'a::zero) platform"
  assumes "n * n \<le> INT_MAX"
  shows "\<exists>m2 gen2.
    bindE (generate (uniform_real pf) (alloc (n * n)) v_mul1 (n * n) 0 (mt19937 pf 89899898))
      (\<lambda>(m1, gen1). bindE (generate (uniform_real pf) m1 v_mul2 (n * n) 0 gen1) k) = k (m2, gen2) \<and>
    vec m2 v_mul1 = mul1_of pf n \<and> vec m2 v_mul2 = mul2_of pf n \<and>
    vec m2 v_resA = replicate (n * n) 0 \<and> vec m2 v_resB = replicate (n * n) 0 \<and>
    vec m2 v_mul2T = replicate (n * n) 0"
proof -
  let ?d = "uniform_real pf" and ?sz = "n * n"
  let ?m0 = "alloc ?sz :: 'a memory"
  have l0: "length (vec ?m0 v_mul1) = ?sz" "length (vec ?m0 v_mul2) = ?sz"
    by (simp_all add: alloc_def)
  note g1 = generate_fill [of ?m0 v_mul1 ?sz 0 ?d "mt19937 pf 89899898", OF l0(1)]
  let ?m1 = "?m0\<lparr>vec := (vec ?m0)(v_mul1 := take 0 (vec ?m0 v_mul1) @ draws ?d (mt19937 pf 89899898) (?sz - 0)),
           stores := stores ?m0 @ map (Pair v_mul1) [0..<?sz]\<rparr>"
  have l1: "length (vec ?m1 v_mul2) = ?sz" by (simp add: alloc_def)
  note g2 = generate_fill [of ?m1 v_mul2 ?sz 0 ?d "after ?d (mt19937 pf 89899898) (?sz - 0)", OF l1]
  show ?thesis
    apply (subst g1, simp)
    apply (simp only: bindE_Inr prod.case)
    apply (subst g2, simp)
    apply (simp only: bindE_Inr)
    apply (intro exI conjI, rule refl)
    apply (simp_all add: alloc_def mul1_of_def mul2_of_def)
    done
qed

lemma store_length: "store m a i x = Inr m' \<Longrightarrow> length (vec m' b) = length (vec m b)"
  by (auto simp: store_def split: if_splits)

lemma buildTranspose_j_safe:
  assumes "n * n \<le> INT_MAX" "length (vec m mul) = n * n" "length (vec m mulT) = n * n" "i < n"
  shows "\<exists>m'. buildTranspose_j m mul mulT n i j = Inr m' \<and> (\<forall>a. length (vec m' a) = length (vec m a))"
  using assms
proof (induction "n - j" arbitrary: j m)
  case 0
  then show ?case by (subst buildTranspose_j.simps) simp
next
  case (Suc d)
  then have lt: "j < n" by simp
  have ld: "load m mul (j * n + i) = Inr (vec m mul ! (j * n + i))"
    using cell_lt [of j n i] lt Suc.prems by (simp add: load_def)
  obtain m1 where st: "store m mulT (i * n + j) (vec m mul ! (j * n + i)) = Inr m1"
    using cell_lt [of i n j] lt Suc.prems by (simp add: store_def)
  then have len: "\<And>a. length (vec m1 a) = length (vec m a)" by (rule store_length)
  have "\<exists>m'. buildTranspose_j m1 mul mulT n i (Suc j) = Inr m' \<and> (\<forall>a. length (vec m' a) = length (vec m1 a))"
    using Suc.prems Suc.hyps(2) lt len by (intro Suc.hyps(1)) auto
  then show ?case
    using lt Suc.prems ld st len
    by (subst buildTranspose_j.simps) (simp add: index_cell)
qed

lemma buildTranspose_i_safe:
  assumes "n * n \<le> INT_MAX" "length (vec m mul) = n * n" "length (vec m mulT) = n * n"
  shows "\<exists>m'. buildTranspose_i m mul mulT n i = Inr m' \<and> (\<forall>a. length (vec m' a) = length (vec m a))"
  using assms
proof (induction "n - i" arbitrary: i m)
  case 0
  then show ?case by (subst buildTranspose_i.simps) simp
next
  case (Suc d)
  then have lt: "i < n" by simp
  obtain m1 where row: "buildTranspose_j m mul mulT n i 0 = Inr m1"
    and len: "\<And>a. length (vec m1 a) = length (vec m a)"
    using buildTranspose_j_safe [OF Suc.prems lt, of 0] by blast
  have "\<exists>m'. buildTranspose_i m1 mul mulT n (Suc i) = Inr m' \<and> (\<forall>a. length (vec m' a) = length (vec m1 a))"
    using Suc.prems Suc.hyps(2) lt len by (intro Suc.hyps(1)) auto
  then show ?case
    using lt row len by (subst buildTranspose_i.simps) simp
qed


lemma multiplyNaive_j_safe:
  assumes "n * n \<le> INT_MAX" "length (vec m mul1) = n * n" "length (vec m mul2) = n * n"
    "length (vec m res) = n * n" "i < n"
  shows "\<exists>m'. multiplyNaive_j m mul1 mul2 res n i j = Inr m' \<and>
    (\<forall>a. length (vec m' a) = length (vec m a))"
  using assms
proof (induction "n - j" arbitrary: j m)
  case 0
  then show ?case by (subst multiplyNaive_j.simps) simp
next
  case (Suc d)
  then have lt: "j < n" by simp
  obtain acc where inner: "multiplyNaive_k m mul1 mul2 n i j 0 0 = Inr acc"
    using multiplyNaive_k_fold [of n m mul1 mul2 i j 0 0] Suc.prems lt by simp
  obtain m1 where st: "store m res (i * n + j) acc = Inr m1"
    using cell_lt [of i n j] lt Suc.prems by (simp add: store_def)
  then have len: "\<And>a. length (vec m1 a) = length (vec m a)" by (rule store_length)
  have "\<exists>m'. multiplyNaive_j m1 mul1 mul2 res n i (Suc j) = Inr m' \<and>
      (\<forall>a. length (vec m' a) = length (vec m1 a))"
    using Suc.prems Suc.hyps(2) lt len by (intro Suc.hyps(1)) auto
  then show ?case
    using lt Suc.prems inner st len
    by (subst multiplyNaive_j.simps) (simp add: index_cell)
qed

lemma multiplyNaive_i_safe:
  assumes "n * n \<le> INT_MAX" "length (vec m mul1) = n * n" "length (vec m mul2) = n * n"
    "length (vec m res) = n * n"
  shows "\<exists>m'. multiplyNaive_i m mul1 mul2 res n i = Inr m' \<and>
    (\<forall>a. length (vec m' a) = length (vec m a))"
  using assms
proof (induction "n - i" arbitrary: i m)
  case 0
  then show ?case by (subst multiplyNaive_i.simps) simp
next
  case (Suc d)
  then have lt: "i < n" by simp
  obtain m1 where row: "multiplyNaive_j m mul1 mul2 res n i 0 = Inr m1"
    and len: "\<And>a. length (vec m1 a) = length (vec m a)"
    using multiplyNaive_j_safe [OF Suc.prems lt, of 0] by blast
  have "\<exists>m'. multiplyNaive_i m1 mul1 mul2 res n (Suc i) = Inr m' \<and>
      (\<forall>a. length (vec m' a) = length (vec m1 a))"
    using Suc.prems Suc.hyps(2) lt len by (intro Suc.hyps(1)) auto
  then show ?case
    using lt row len by (subst multiplyNaive_i.simps) simp
qed

lemma multiplyWithTranspose_j_safe:
  assumes "n * n \<le> INT_MAX" "length (vec m mul1) = n * n" "length (vec m mul2T) = n * n"
    "length (vec m res) = n * n" "i < n"
  shows "\<exists>m'. multiplyWithTranspose_j m mul1 mul2T res n i j = Inr m' \<and>
    (\<forall>a. length (vec m' a) = length (vec m a))"
  using assms
proof (induction "n - j" arbitrary: j m)
  case 0
  then show ?case by (subst multiplyWithTranspose_j.simps) simp
next
  case (Suc d)
  then have lt: "j < n" by simp
  obtain acc where inner: "multiplyWithTranspose_k m mul1 mul2T n i j 0 0 = Inr acc"
    using multiplyWithTranspose_k_fold [of n m mul1 mul2T i j 0 0] Suc.prems lt by simp
  obtain m1 where st: "store m res (i * n + j) acc = Inr m1"
    using cell_lt [of i n j] lt Suc.prems by (simp add: store_def)
  then have len: "\<And>a. length (vec m1 a) = length (vec m a)" by (rule store_length)
  have "\<exists>m'. multiplyWithTranspose_j m1 mul1 mul2T res n i (Suc j) = Inr m' \<and>
      (\<forall>a. length (vec m' a) = length (vec m1 a))"
    using Suc.prems Suc.hyps(2) lt len by (intro Suc.hyps(1)) auto
  then show ?case
    using lt Suc.prems inner st len
    by (subst multiplyWithTranspose_j.simps) (simp add: index_cell)
qed

lemma multiplyWithTranspose_i_safe:
  assumes "n * n \<le> INT_MAX" "length (vec m mul1) = n * n" "length (vec m mul2T) = n * n"
    "length (vec m res) = n * n"
  shows "\<exists>m'. multiplyWithTranspose_i m mul1 mul2T res n i = Inr m' \<and>
    (\<forall>a. length (vec m' a) = length (vec m a))"
  using assms
proof (induction "n - i" arbitrary: i m)
  case 0
  then show ?case by (subst multiplyWithTranspose_i.simps) simp
next
  case (Suc d)
  then have lt: "i < n" by simp
  obtain m1 where row: "multiplyWithTranspose_j m mul1 mul2T res n i 0 = Inr m1"
    and len: "\<And>a. length (vec m1 a) = length (vec m a)"
    using multiplyWithTranspose_j_safe [OF Suc.prems lt, of 0] by blast
  have "\<exists>m'. multiplyWithTranspose_i m1 mul1 mul2T res n (Suc i) = Inr m' \<and>
      (\<forall>a. length (vec m' a) = length (vec m1 a))"
    using Suc.prems Suc.hyps(2) lt len by (intro Suc.hyps(1)) auto
  then show ?case
    using lt row len by (subst multiplyWithTranspose_i.simps) simp
qed

lemma fits_iff: "n * n \<le> INT_MAX \<longleftrightarrow> n \<le> 46340"
proof
  assume a: "n * n \<le> INT_MAX"
  show "n \<le> 46340"
  proof (rule ccontr)
    assume "\<not> n \<le> 46340"
    then have "46341 \<le> n" by simp
    then have "46341 * 46341 \<le> n * n" by (intro mult_le_mono)
    with a show False by (simp add: INT_MAX_def)
  qed
next
  assume "n \<le> 46340"
  then have "n * n \<le> 46340 * 46340" by (intro mult_le_mono)
  then show "n * n \<le> INT_MAX" by (simp add: INT_MAX_def)
qed

lemma main_n_naive:
  fixes pf :: "('g, 'a::{zero,plus,times}) platform"
  assumes "n * n \<le> INT_MAX" "\<not> transposeMode argv"
  shows "\<exists>r. main_n n pf argv = Inr r \<and>
    calls r = [FlushCache, MultiplyNaive] \<and> exit_code r = 0 \<and>
    out r = report ''naive ms: '' (duration_ms (steady_clock pf 0) (steady_clock pf 1))
              (to_bits pf (foldl (+) 0 (matmul (mul1_of pf n) (mul2_of pf n) n))) \<and>
    vec (final r) v_mul1 = mul1_of pf n \<and> vec (final r) v_mul2 = mul2_of pf n \<and>
    vec (final r) v_resA = matmul (mul1_of pf n) (mul2_of pf n) n"
  using assms
  by (simp add: main_n_def int_mul_def generate_fill multiplyNaive_result checksum_fold alloc_def
      mul1_of_def mul2_of_def)

lemma main_n_transposed:
  fixes pf :: "('g, 'a::{zero,plus,times}) platform"
  assumes "n * n \<le> INT_MAX" "transposeMode argv"
  shows "\<exists>r. main_n n pf argv = Inr r \<and>
    calls r = [FlushCache, BuildTranspose, MultiplyWithTranspose] \<and> exit_code r = 0 \<and>
    out r = report ''transposed ms: '' (duration_ms (steady_clock pf 0) (steady_clock pf 1))
              (to_bits pf (foldl (+) 0 (matmul (mul1_of pf n) (mul2_of pf n) n))) \<and>
    vec (final r) v_mul1 = mul1_of pf n \<and> vec (final r) v_mul2 = mul2_of pf n \<and>
    vec (final r) v_mul2T = transposed (mul2_of pf n) n \<and>
    vec (final r) v_resB = matmul (mul1_of pf n) (mul2_of pf n) n"
  using assms
  by (simp add: main_n_def int_mul_def generate_fill buildTranspose_result
      multiplyWithTranspose_result checksum_fold alloc_def
      mul1_of_def mul2_of_def matmulT_transposed)

subsection \<open>Binary64 arithmetic\<close>

lemma unat_bits_lt: "unat (bits x) < 2 ^ 64"
  using unsigned_less [of "bits x"] by simp

lemma fraction_lt: "fraction x < 2 ^ 52"
  by (simp add: fraction_def)

lemma biased_exp_lt: "biased_exp x < 2048"
  by (simp add: biased_exp_def)

lemma bits_decompose:
  "unat (bits x) = (if sign x then 2 ^ 63 else 0) + biased_exp x * 2 ^ 52 + fraction x"
proof -
  define w where "w = unat (bits x)"
  define a where "a = w div 2 ^ 52"
  define t where "t = w div 2 ^ 63"
  have w: "w < 2 ^ 64" unfolding w_def by (rule unat_bits_lt)
  have 1: "w = a * 2 ^ 52 + w mod 2 ^ 52" unfolding a_def by simp
  have "a div 2048 = t" unfolding a_def t_def by (simp add: div_mult2_eq [symmetric])
  then have 2: "a = t * 2048 + a mod 2048" by (metis div_mult_mod_eq)
  have 3: "t = (if 2 ^ 63 \<le> w then 1 else 0)"
    unfolding t_def using w by (auto simp: div_eq_0_iff intro!: Euclidean_Rings.div_nat_eqI)
  have "w = t * 2 ^ 63 + (a mod 2048) * 2 ^ 52 + w mod 2 ^ 52"
    by (subst 1, subst 2) (simp add: algebra_simps)
  with 3 show ?thesis
    unfolding sign_def biased_exp_def fraction_def w_def [symmetric] a_def [symmetric]
    by (simp split: if_splits)
qed

lemma pack_bits:
  "pack (sign x) (biased_exp x * 2 ^ 52 + fraction x) = x"
proof -
  have "pack (sign x) (biased_exp x * 2 ^ 52 + fraction x) = Double (of_nat (unat (bits x)))"
    unfolding pack_def by (subst bits_decompose [of x]) (simp add: add.assoc)
  then show ?thesis by simp
qed

lemma bitlen_0 [simp]: "bitlen 0 = 0"
  by (simp add: bitlen.simps)

lemma bitlen_double: "0 < m \<Longrightarrow> bitlen (2 * m) = Suc (bitlen m)"
  by (subst bitlen.simps) simp

lemma bitlen_shift: "0 < m \<Longrightarrow> bitlen (m * 2 ^ k) = bitlen m + k"
proof (induction k)
  case 0
  then show ?case by simp
next
  case (Suc k)
  then have "bitlen (2 * (m * 2 ^ k)) = Suc (bitlen (m * 2 ^ k))"
    by (intro bitlen_double) simp
  with Suc show ?case by (simp add: mult.commute mult.left_commute)
qed

lemma bitlen_eq: "2 ^ k \<le> m \<Longrightarrow> m < 2 ^ Suc k \<Longrightarrow> bitlen m = Suc k"
proof (induction k arbitrary: m)
  case 0
  then have "m = 1" by simp
  then show ?case by (simp add: bitlen.simps)
next
  case (Suc k)
  then have "2 ^ k \<le> m div 2" "m div 2 < 2 ^ Suc k" by auto
  then have "bitlen (m div 2) = Suc k" by (rule Suc.IH)
  moreover from Suc.prems have "m \<noteq> 0" by auto
  ultimately show ?case by (subst bitlen.simps) simp
qed

lemma bitlen_le: "m < 2 ^ k \<Longrightarrow> bitlen m \<le> k"
proof (induction k arbitrary: m)
  case 0
  then show ?case by simp
next
  case (Suc k)
  then have "m div 2 < 2 ^ k" by auto
  then have "bitlen (m div 2) \<le> k" by (rule Suc.IH)
  then show ?case by (subst bitlen.simps) simp
qed

lemma bitlen_bounds: "0 < m \<Longrightarrow> 2 ^ (bitlen m - 1) \<le> m \<and> m < 2 ^ bitlen m"
proof (induction m rule: bitlen.induct)
  case (1 m)
  show ?case
  proof (cases "m div 2 = 0")
    case True
    with 1 have "m = 1" by (auto simp: div_eq_0_iff)
    then show ?thesis by (simp add: bitlen.simps)
  next
    case False
    with 1 have ih: "2 ^ (bitlen (m div 2) - 1) \<le> m div 2" "m div 2 < 2 ^ bitlen (m div 2)"
      by auto
    from False have pos: "0 < bitlen (m div 2)" by (subst bitlen.simps) simp
    have b: "bitlen m = Suc (bitlen (m div 2))" using 1 by (subst bitlen.simps) simp
    have lo: "2 * (m div 2) \<le> m" and hi: "m < 2 * (m div 2) + 2" by arith+
    from pos have p: "(2::nat) ^ bitlen (m div 2) = 2 * 2 ^ (bitlen (m div 2) - 1)"
      by (cases "bitlen (m div 2)") simp_all
    from ih(1) have "2 * 2 ^ (bitlen (m div 2) - 1) \<le> 2 * (m div 2)" by simp
    with lo p have A: "2 ^ bitlen (m div 2) \<le> m" by linarith
    from ih(2) have "2 * (m div 2) + 2 \<le> 2 * 2 ^ bitlen (m div 2)" by simp
    with hi have B: "m < 2 * 2 ^ bitlen (m div 2)" by linarith
    from A B show ?thesis unfolding b by simp
  qed
qed

lemma rne_exact: "rne (m * 2 ^ k) k = m"
proof (cases k)
  case 0
  then show ?thesis by (simp add: rne_def)
next
  case (Suc k')
  then show ?thesis by (simp add: rne_def Let_def)
qed

lemma bitlen_mant:
  assumes "mant x \<noteq> 0"
  shows "max (expo x + int (bitlen (mant x)) - 53) (- 1074) = expo x"
proof (cases "biased_exp x = 0")
  case True
  then have "mant x < 2 ^ 52" using fraction_lt [of x] by (simp add: mant_def)
  then have "bitlen (mant x) \<le> 52" by (rule bitlen_le)
  with True show ?thesis by (simp add: expo_def)
next
  case False
  then have "2 ^ 52 \<le> mant x" "mant x < 2 ^ Suc 52"
    using fraction_lt [of x] by (simp_all add: mant_def)
  then have "bitlen (mant x) = Suc 52" by (rule bitlen_eq)
  with False show ?thesis by (simp add: expo_def)
qed

lemma word_of_mant:
  "is_finite x \<Longrightarrow> nat (expo x + 1074) * 2 ^ 52 + mant x = biased_exp x * 2 ^ 52 + fraction x"
  by (cases "biased_exp x") (simp_all add: expo_def mant_def)

lemma round_double_exact:
  assumes "is_finite x" "mant x \<noteq> 0"
  shows "round_double (sign x) (mant x * 2 ^ k) (expo x - int k) = x"
proof -
  let ?m = "mant x"
  from assms(2) have pos: "0 < ?m" by simp
  have q: "max (expo x - int k + int (bitlen (?m * 2 ^ k)) - 53) (- 1074) = expo x"
    using bitlen_mant [OF assms(2)] bitlen_shift [OF pos, of k] by simp
  have mr: "(if expo x \<le> expo x - int k then ?m * 2 ^ k * 2 ^ nat (expo x - int k - expo x)
            else rne (?m * 2 ^ k) (nat (expo x - (expo x - int k)))) = ?m"
    by (simp add: rne_exact)
  have lt: "biased_exp x * 2 ^ 52 + fraction x < 2047 * 2 ^ 52"
    using assms(1) fraction_lt [of x] by (simp add: is_finite_def)
  show ?thesis
    unfolding round_double_def Let_def q mr word_of_mant [OF assms(1)]
    using lt pack_bits [of x] by simp
qed

lemma signed_zero_fields [simp]:
  "biased_exp (signed_zero s) = 0" "fraction (signed_zero s) = 0" "sign (signed_zero s) = s"
  by (simp_all add: signed_zero_def pack_def biased_exp_def fraction_def sign_def)

lemma zero_fields [simp]:
  "biased_exp (0::double) = 0" "fraction (0::double) = 0" "\<not> sign (0::double)"
  by (simp_all add: zero_double_def biased_exp_def fraction_def sign_def)

lemma one_fields [simp]:
  "biased_exp (1::double) = 1023" "fraction (1::double) = 0" "\<not> sign (1::double)"
  by (simp_all add: one_double_def biased_exp_def fraction_def sign_def)

lemma signed_zero_False: "signed_zero False = 0"
  by (simp add: signed_zero_def pack_def zero_double_def)

lemma signed_zero_True: "signed_zero True = neg_zero"
  by (simp add: signed_zero_def pack_def neg_zero_def)

lemma is_zero_cases: "is_zero x \<Longrightarrow> x = signed_zero (sign x)"
  using pack_bits [of x] by (simp add: is_zero_def signed_zero_def)

lemma is_zero_signed_zero [simp]: "is_zero (signed_zero s)"
  by (simp add: is_zero_def)

lemma finite_not_special: "is_finite x \<Longrightarrow> \<not> is_nan x \<and> \<not> is_inf x"
  by (simp add: is_finite_def is_nan_def is_inf_def)

lemma is_zero_finite: "is_zero x \<Longrightarrow> is_finite x"
  by (simp add: is_zero_def is_finite_def)

lemma mant_eq_0_iff: "is_finite x \<Longrightarrow> mant x = 0 \<longleftrightarrow> is_zero x"
  by (simp add: mant_def is_zero_def)

lemma zero_times: "is_finite x \<Longrightarrow> is_zero (0 * x)"
  using finite_not_special [of x] finite_not_special [of 0]
  by (simp add: times_double_def dmul_def mant_def is_finite_def)

lemma zero_plus_zero: "is_zero z \<Longrightarrow> 0 + z = (0::double)"
  using finite_not_special [of z] finite_not_special [of 0] is_zero_finite [of z]
  by (simp add: plus_double_def dadd_def signed_mant_def mant_def is_zero_def
      is_finite_def signed_zero_False)

lemma one_times: "is_finite x \<Longrightarrow> 1 * x = x"
proof (cases "mant x = 0")
  case True
  assume fin: "is_finite x"
  with True have "is_zero x" by (simp add: mant_eq_0_iff)
  then have "x = signed_zero (sign x)" by (rule is_zero_cases)
  moreover have "1 * x = signed_zero (sign x)"
    using True fin finite_not_special [of x] finite_not_special [of 1]
    by (simp add: times_double_def dmul_def is_finite_def)
  ultimately show ?thesis by simp
next
  case False
  assume fin: "is_finite x"
  have "round_double (sign x) (mant x * 2 ^ 52) (expo x - int 52) = x"
    using fin False by (rule round_double_exact)
  moreover have "mant (1::double) = 2 ^ 52" "expo (1::double) = - 52"
    by (simp_all add: mant_def expo_def)
  ultimately show ?thesis
    using False fin finite_not_special [of x] finite_not_special [of 1]
    by (simp add: times_double_def dmul_def is_finite_def mult.commute)
qed

lemma expo_ge: "- 1074 \<le> expo x"
  by (simp add: expo_def)

lemma signed_magnitude:
  assumes "0 < M"
  shows "(if s then - 1 else 1) * int M \<noteq> 0"
    "(if s then - 1 else 1) * int M < 0 \<longleftrightarrow> s"
    "nat \<bar>(if s then - 1 else 1) * int M\<bar> = M"
  using assms by auto

lemma plus_zero_right:
  assumes "is_finite x" "mant x \<noteq> 0" "is_zero z"
  shows "x + z = x"
proof -
  have ez: "expo z = - 1074" using assms(3) by (simp add: expo_def is_zero_def)
  have mz: "mant z = 0" using assms(3) by (simp add: mant_def is_zero_def)
  define k where "k = nat (expo x + 1074)"
  define M where "M = mant x * 2 ^ k"
  have M: "0 < M" using assms(2) by (simp add: M_def)
  have e: "min (expo x) (expo z) = - 1074" using ez expo_ge [of x] by simp
  have k: "expo x - int k = - 1074" using expo_ge [of x] by (simp add: k_def)
  have "round_double (sign x) (mant x * 2 ^ k) (expo x - int k) = x"
    using assms(1,2) by (rule round_double_exact)
  then have r: "round_double (sign x) M (- 1074) = x" by (simp only: k M_def)
  have t: "signed_mant x (- 1074) + signed_mant z (- 1074) = (if sign x then - 1 else 1) * int M"
    by (simp add: signed_mant_def mz M_def k_def)
  have sp: "\<not> is_nan x" "\<not> is_inf x" "\<not> is_nan z" "\<not> is_inf z"
    using finite_not_special [OF assms(1)] finite_not_special [OF is_zero_finite [OF assms(3)]]
    by simp_all
  show ?thesis
    unfolding plus_double_def dadd_def Let_def e t
    by (simp only: sp signed_magnitude [OF M] r if_False simp_thms)
qed

lemma plus_zero_left:
  assumes "is_finite x" "mant x \<noteq> 0"
  shows "0 + x = x"
proof -
  have ez: "expo (0::double) = - 1074" by (simp add: expo_def)
  have mz: "mant (0::double) = 0" by (simp add: mant_def)
  define k where "k = nat (expo x + 1074)"
  define M where "M = mant x * 2 ^ k"
  have M: "0 < M" using assms(2) by (simp add: M_def)
  have e: "min (expo (0::double)) (expo x) = - 1074" using ez expo_ge [of x] by simp
  have k: "expo x - int k = - 1074" using expo_ge [of x] by (simp add: k_def)
  have "round_double (sign x) (mant x * 2 ^ k) (expo x - int k) = x"
    using assms(1,2) by (rule round_double_exact)
  then have r: "round_double (sign x) M (- 1074) = x" by (simp only: k M_def)
  have t: "signed_mant 0 (- 1074) + signed_mant x (- 1074) = (if sign x then - 1 else 1) * int M"
    by (simp add: signed_mant_def mz M_def k_def)
  have "is_finite (0::double)" by (simp add: is_finite_def)
  then have sp: "\<not> is_nan x" "\<not> is_inf x" "\<not> is_nan (0::double)" "\<not> is_inf (0::double)"
    using finite_not_special [OF assms(1)] finite_not_special [of 0] by simp_all
  show ?thesis
    unfolding plus_double_def dadd_def Let_def e t
    by (simp only: sp signed_magnitude [OF M] r if_False simp_thms)
qed

lemma unat_pack:
  assumes "w < 2 ^ 63"
  shows "unat (bits (pack s w)) = (if s then 2 ^ 63 else 0) + w"
proof -
  define v where "v = (if s then 2 ^ 63 else 0) + w"
  have "v < (2::nat) ^ 64" using assms by (simp add: v_def)
  then have "unat (of_nat v :: 64 word) = v" by (simp add: unat_of_nat)
  then show ?thesis unfolding pack_def v_def [symmetric] by simp
qed

lemma pack_fields:
  assumes "w < 2 ^ 63"
  shows "sign (pack s w) = s" "biased_exp (pack s w) = w div 2 ^ 52" "fraction (pack s w) = w mod 2 ^ 52"
proof -
  note u = unat_pack [OF assms, of s]
  show "sign (pack s w) = s" using assms unfolding sign_def u by simp
  have d: "w div 2 ^ 52 < 2048" using assms by (simp add: less_mult_imp_div_less)
  have "(2048 * 2 ^ 52 + w) div 2 ^ 52 = 2048 + w div (2::nat) ^ 52"
    by (rule div_mult_self3) simp
  then have "((if s then 2 ^ 63 else 0) + w) div 2 ^ 52 = (if s then 2048 else 0) + w div 2 ^ 52"
    by simp
  then show "biased_exp (pack s w) = w div 2 ^ 52" using d unfolding biased_exp_def u by simp
  have "(2048 * 2 ^ 52 + w) mod 2 ^ 52 = w mod (2::nat) ^ 52"
    by (rule mod_mult_self3)
  then have "((if s then 2 ^ 63 else 0) + w) mod 2 ^ 52 = w mod 2 ^ 52"
    by simp
  then show "fraction (pack s w) = w mod 2 ^ 52" unfolding fraction_def u by simp
qed

lemma decode_pack:
  assumes "E \<le> 2044" "mr \<le> 2 ^ 53" "mr < 2 ^ 52 \<longrightarrow> E = 0"
  shows "is_finite (pack s (E * 2 ^ 52 + mr))" "sign (pack s (E * 2 ^ 52 + mr)) = s"
    "real (mant (pack s (E * 2 ^ 52 + mr))) * 2 powi expo (pack s (E * 2 ^ 52 + mr)) =
     real mr * 2 powi (int E - 1074)"
proof -
  let ?w = "E * 2 ^ 52 + mr"
  let ?x = "pack s ?w"
  have "?w \<le> 2044 * 2 ^ 52 + 2 ^ 53" using assms(1,2) by (intro add_mono mult_le_mono) simp_all
  then have w: "?w < 2 ^ 63" by simp
  note f = pack_fields [OF w, of s]
  show "sign ?x = s" by (rule f(1))
  consider "mr < 2 ^ 52" | "2 ^ 52 \<le> mr" "mr < 2 ^ 53" | "mr = 2 ^ 53"
    using assms(2) by linarith
  then have "is_finite ?x \<and> real (mant ?x) * 2 powi expo ?x = real mr * 2 powi (int E - 1074)"
  proof cases
    case 1
    with assms(3) have E: "E = 0" by simp
    with 1 have "biased_exp ?x = 0" "fraction ?x = mr" unfolding f by simp_all
    then show ?thesis using E by (simp add: is_finite_def mant_def expo_def)
  next
    case 2
    define r where "r = mr - 2 ^ 52"
    have r: "mr = 2 ^ 52 + r" "r < 2 ^ 52" using 2 by (simp_all add: r_def)
    have "?w = (E + 1) * 2 ^ 52 + r" using r by simp
    then have "?w div 2 ^ 52 = E + 1" "?w mod 2 ^ 52 = r" using r(2) by simp_all
    then have "biased_exp ?x = E + 1" "fraction ?x = r" unfolding f by simp_all
    then show ?thesis using assms(1) r by (simp add: is_finite_def mant_def expo_def)
  next
    case 3
    have "?w = (E + 2) * 2 ^ 52" using 3 by simp
    then have "?w div 2 ^ 52 = E + 2" "?w mod 2 ^ 52 = 0" by simp_all
    then have b: "biased_exp ?x = E + 2" "fraction ?x = 0" unfolding f by simp_all
    have "(2::real) powi (int E - 1073) = 2 powi (int E - 1074) * 2"
      using power_int_add_1 [of "2::real" "int E - 1074"] by simp
    then show ?thesis using assms(1) 3 b by (simp add: is_finite_def mant_def expo_def)
  qed
  then show "is_finite ?x" "real (mant ?x) * 2 powi expo ?x = real mr * 2 powi (int E - 1074)"
    by simp_all
qed

lemma rne_le: "m \<le> Y * 2 ^ d \<Longrightarrow> rne m d \<le> Y"
proof -
  assume a: "m \<le> Y * 2 ^ d"
  then have q: "m div 2 ^ d \<le> Y" by (metis div_le_mono nonzero_mult_div_cancel_right power_not_zero zero_neq_numeral)
  show ?thesis
  proof (cases "m div 2 ^ d = Y")
    case True
    have "m = m div 2 ^ d * 2 ^ d + m mod 2 ^ d" by (rule div_mult_mod_eq [symmetric])
    with True a have "m mod 2 ^ d = 0" by (metis add_le_same_cancel1 le_zero_eq)
    then show ?thesis using True by (simp add: rne_def Let_def)
  next
    case False
    with q have "m div 2 ^ d < Y" by simp
    then show ?thesis by (simp add: rne_def Let_def)
  qed
qed

lemma rne_between: "m div 2 ^ d \<le> rne m d \<and> rne m d \<le> m div 2 ^ d + 1"
  by (simp add: rne_def Let_def)

lemma powi_nat: "0 \<le> z \<Longrightarrow> (2::real) powi z = 2 ^ nat z"
  by (simp add: power_int_def)

lemma powi_split: "(2::real) powi (a + b) = 2 powi a * 2 powi b"
  by (rule power_int_add) simp

lemma round_double_bound:
  assumes "0 < m" "real m * 2 powi e \<le> real N" "N < 2 ^ 53"
  shows "is_finite (round_double s m e) \<and> sign (round_double s m e) = s \<and>
    real (mant (round_double s m e)) * 2 powi expo (round_double s m e) \<le> real N"
proof -
  define L where "L = bitlen m"
  define q where "q = max (e + int L - 53) (- 1074)"
  define mr where "mr = (if q \<le> e then m * 2 ^ nat (e - q) else rne m (nat (q - e)))"
  define E where "E = nat (q + 1074)"
  have L: "2 ^ (L - 1) \<le> m" "m < 2 ^ L" "0 < L"
    using bitlen_bounds [OF assms(1)] assms(1) unfolding L_def
    by (simp_all, subst bitlen.simps, simp)
  have q_ge: "e + int L - 53 \<le> q" "- 1074 \<le> q" by (simp_all add: q_def)
  have q_cases: "q = - 1074 \<or> q = e + int L - 53" by (auto simp: q_def max_def)
  have E: "int E - 1074 = q" using q_ge(2) by (simp add: E_def)
  have low: "(2::real) powi (e + int L - 1) \<le> real m * 2 powi e"
  proof -
    have "real (2 ^ (L - 1)) \<le> real m" using L(1) by (simp only: of_nat_le_iff)
    then have A: "(2::real) ^ (L - 1) \<le> real m" by simp
    have B: "(2::real) ^ (L - 1) = 2 powi (int L - 1)"
      using L(3) by (simp add: power_int_def nat_diff_distrib')
    have "2 powi (int L - 1) \<le> real m" using A unfolding B .
    then have "2 powi (int L - 1) * 2 powi e \<le> real m * 2 powi e"
      by (intro mult_right_mono) simp_all
    moreover have "e + int L - 1 = (int L - 1) + e" by simp
    ultimately show ?thesis by (simp only: powi_split)
  qed
  have q0: "q \<le> 0"
  proof (rule ccontr)
    assume "\<not> q \<le> 0"
    with q_cases have qq: "q = e + int L - 53" "0 < q" by auto
    then have "53 \<le> e + int L - 1" by simp
    then have "(2::real) powi 53 \<le> 2 powi (e + int L - 1)"
      by (intro power_int_increasing) simp_all
    with low assms(2) have "real (2 ^ 53) \<le> real N" by simp
    then have "(2::nat) ^ 53 \<le> N" by (simp only: of_nat_le_iff)
    with assms(3) show False by simp
  qed
  have val: "real mr * 2 powi q \<le> real N"
  proof (cases "q \<le> e")
    case True
    then have "real mr * 2 powi q = real m * (2 powi (e - q) * 2 powi q)"
      by (simp add: mr_def powi_nat)
    also have "2 powi (e - q) * 2 powi q = (2::real) powi e"
      by (simp add: powi_split [symmetric])
    finally show ?thesis using assms(2) by simp
  next
    case False
    define d where "d = nat (q - e)"
    define Y where "Y = N * 2 ^ nat (- q)"
    have d: "int d = q - e" using False by (simp add: d_def)
    have 1: "real m * 2 powi e * 2 powi (- e) \<le> real N * 2 powi (- e)"
      using assms(2) by (intro mult_right_mono) simp_all
    have "(2::real) powi e * 2 powi (- e) = 1"
      by (simp add: powi_split [symmetric])
    then have 2: "real m * 2 powi e * 2 powi (- e) = real m" by (simp add: mult.assoc)
    have "- e = - q + int d" using d by simp
    then have "(2::real) powi (- e) = 2 powi (- q) * 2 powi int d" by (simp only: powi_split)
    then have 3: "(2::real) powi (- e) = 2 ^ nat (- q) * 2 ^ d" using q0 by (simp add: powi_nat)
    from 1 [unfolded 2] have "real m \<le> real N * (2 ^ nat (- q) * 2 ^ d)" unfolding 3 .
    then have "real m \<le> real (Y * 2 ^ d)" by (simp add: Y_def mult.assoc)
    then have "m \<le> Y * 2 ^ d" by (simp only: of_nat_le_iff)
    then have "rne m d \<le> Y" by (rule rne_le)
    then have "real mr \<le> real Y" using False by (simp add: mr_def d_def)
    then have "real mr * 2 powi q \<le> real Y * 2 powi q" by (intro mult_right_mono) simp_all
    also have "real Y * 2 powi q = real N * (2 powi (- q) * 2 powi q)"
      using q0 by (simp add: Y_def powi_nat)
    also have "2 powi (- q) * 2 powi q = (1::real)" by (simp add: powi_split [symmetric])
    finally show ?thesis by simp
  qed
  have hi: "mr \<le> 2 ^ 53"
  proof (cases "q \<le> e")
    case True
    define k where "k = nat (e - q)"
    have "int L + int k \<le> 53" using True q_ge(1) by (simp add: k_def)
    then have Lk: "L + k \<le> 53" by linarith
    have "m * 2 ^ k < 2 ^ L * 2 ^ k" using L(2) by simp
    also have "\<dots> = 2 ^ (L + k)" by (simp add: power_add)
    also have "\<dots> \<le> (2::nat) ^ 53" using Lk by (intro power_increasing) simp_all
    finally show ?thesis using True by (simp add: mr_def k_def)
  next
    case False
    define d where "d = nat (q - e)"
    have "int L \<le> int d + 53" using False q_ge(1) by (simp add: d_def)
    then have Ld: "L \<le> d + 53" by linarith
    have "m < 2 ^ L" by (rule L(2))
    also have "\<dots> \<le> (2::nat) ^ (d + 53)" using Ld by (intro power_increasing) simp_all
    finally have "m < 2 ^ 53 * 2 ^ d" by (simp add: power_add mult.commute)
    then have "m div 2 ^ d < 2 ^ 53" by (simp add: less_mult_imp_div_less)
    with rne_between [of m d] show ?thesis using False by (simp add: mr_def d_def)
  qed
  have lo: "mr < 2 ^ 52 \<longrightarrow> E = 0"
  proof (rule ccontr)
    assume "\<not> (mr < 2 ^ 52 \<longrightarrow> E = 0)"
    then have small: "mr < 2 ^ 52" and "E \<noteq> 0" by simp_all
    then have "q \<noteq> - 1074" by (simp add: E_def)
    with q_cases have qq: "q = e + int L - 53" by simp
    show False
    proof (cases "q \<le> e")
      case True
      define k where "k = nat (e - q)"
      have "int L + int k = 53" using True qq by (simp add: k_def)
      then have Lk: "(L - 1) + k = 52" using L(3) by linarith
      have "2 ^ (L - 1) * 2 ^ k \<le> m * 2 ^ k" using L(1) by simp
      moreover have "2 ^ (L - 1) * 2 ^ k = (2::nat) ^ 52" by (simp only: power_add [symmetric] Lk)
      ultimately have "(2::nat) ^ 52 \<le> m * 2 ^ k" by (simp only:)
      with small True show False by (simp add: mr_def k_def)
    next
      case False
      define d where "d = nat (q - e)"
      have "int L = int d + 53" using False qq by (simp add: d_def)
      then have Ld: "L - 1 = 52 + d" by linarith
      have "(2::nat) ^ (L - 1) = 2 ^ 52 * 2 ^ d" by (simp only: Ld power_add)
      with L(1) have "2 ^ 52 * 2 ^ d \<le> m" by (simp only:)
      then have "2 ^ 52 \<le> m div 2 ^ d"
        by (metis div_le_mono nonzero_mult_div_cancel_right power_not_zero zero_neq_numeral)
      with rne_between [of m d] small False show False by (simp add: mr_def d_def)
    qed
  qed
  have E_le: "E \<le> 1074" using q0 by (simp add: E_def)
  then have E44: "E \<le> 2044" by simp
  have "E * 2 ^ 52 + mr \<le> 1074 * 2 ^ 52 + 2 ^ 53"
    using E_le hi by (intro add_mono mult_le_mono) simp_all
  then have w: "E * 2 ^ 52 + mr < 2047 * 2 ^ 52" by simp
  have r: "round_double s m e = pack s (E * 2 ^ 52 + mr)"
    using w unfolding round_double_def Let_def L_def [symmetric] q_def [symmetric]
      mr_def [symmetric] E_def [symmetric] by simp
  show ?thesis
    unfolding r using decode_pack [OF E44 hi lo, of s] val E by simp
qed

lemma valof_nonneg_iff: "0 \<le> valof x \<longleftrightarrow> (sign x \<longrightarrow> mant x = 0)"
proof -
  have p: "\<not> (2::real) powi expo x \<le> 0" by (simp add: not_le)
  show ?thesis
  proof (cases "sign x")
    case True
    have "real (mant x) * 2 powi expo x \<le> 0 \<longleftrightarrow> mant x = 0"
      by (simp add: mult_le_0_iff p)
    with True show ?thesis by (simp add: valof_def)
  next
    case False
    then show ?thesis by (simp add: valof_def)
  qed
qed

lemma valof_nonneg: "0 \<le> valof x \<Longrightarrow> valof x = real (mant x) * 2 powi expo x"
  unfolding valof_nonneg_iff by (cases "sign x") (simp_all add: valof_def)

lemma int_magnitude:
  "int M = 0 \<longleftrightarrow> M = 0" "\<not> int M < 0" "nat \<bar>int M\<bar> = M"
  by simp_all

lemma valof_signed_zero [simp]: "valof (signed_zero s) = 0"
  by (simp add: valof_def mant_def)

lemma is_finite_signed_zero [simp]: "is_finite (signed_zero s)"
  by (simp add: is_finite_def)

lemma signed_mant_nonneg:
  assumes "0 \<le> valof x" "e \<le> expo x"
  shows "signed_mant x e = int (mant x * 2 ^ nat (expo x - e))"
    "real (mant x * 2 ^ nat (expo x - e)) * 2 powi e = valof x"
proof -
  show "signed_mant x e = int (mant x * 2 ^ nat (expo x - e))"
    using assms(1) by (auto simp: signed_mant_def valof_nonneg_iff)
  have "(2::real) powi (expo x - e) * 2 powi e = 2 powi expo x"
    by (simp add: powi_split [symmetric])
  then have "(2::real) ^ nat (expo x - e) * 2 powi e = 2 powi expo x"
    using assms(2) by (simp add: powi_nat)
  then show "real (mant x * 2 ^ nat (expo x - e)) * 2 powi e = valof x"
    using assms(1) by (simp add: valof_nonneg mult.assoc)
qed

lemma plus_bounded:
  assumes "is_finite a" "is_finite b" "0 \<le> valof a" "0 \<le> valof b"
    "valof a + valof b \<le> real N" "N < 2 ^ 53"
  shows "nonneg_le (a + b) N"
proof -
  define e where "e = min (expo a) (expo b)"
  define Ma where "Ma = mant a * 2 ^ nat (expo a - e)"
  define Mb where "Mb = mant b * 2 ^ nat (expo b - e)"
  have ea: "e \<le> expo a" and eb: "e \<le> expo b" by (simp_all add: e_def)
  note sa = signed_mant_nonneg [OF assms(3) ea, folded Ma_def]
  note sb = signed_mant_nonneg [OF assms(4) eb, folded Mb_def]
  have t: "signed_mant a e + signed_mant b e = int (Ma + Mb)" by (simp add: sa sb)
  have sp: "\<not> is_nan a" "\<not> is_inf a" "\<not> is_nan b" "\<not> is_inf b"
    using finite_not_special [OF assms(1)] finite_not_special [OF assms(2)] by simp_all
  have sum: "a + b = (if Ma + Mb = 0 then signed_zero (sign a \<and> sign b)
      else round_double False (Ma + Mb) e)"
    unfolding plus_double_def dadd_def Let_def e_def [symmetric] t
    by (simp only: sp if_False simp_thms int_magnitude)
  show ?thesis
  proof (cases "Ma + Mb = 0")
    case True
    then show ?thesis unfolding sum by (simp add: nonneg_le_def)
  next
    case False
    have "real (Ma + Mb) * 2 powi e = valof a + valof b"
      using sa(2) sb(2) by (simp add: distrib_right)
    with assms(5) have "real (Ma + Mb) * 2 powi e \<le> real N" by simp
    moreover have r: "a + b = round_double False (Ma + Mb) e"
      unfolding sum using False by (simp only: if_False)
    moreover from False have "0 < Ma + Mb" by simp
    ultimately show ?thesis
      using round_double_bound [of "Ma + Mb" e N False] assms(6)
      unfolding r by (simp add: nonneg_le_def valof_def)
  qed
qed

lemma times_bounded:
  assumes "in_unit a" "in_unit b"
  shows "nonneg_le (a * b) 1"
proof -
  from assms have fin: "is_finite a" "is_finite b" and nn: "0 \<le> valof a" "0 \<le> valof b"
    and lt: "valof a < 1" "valof b < 1" by (simp_all add: in_unit_def)
  have sp: "\<not> is_nan a" "\<not> is_inf a" "\<not> is_nan b" "\<not> is_inf b"
    using finite_not_special [OF fin(1)] finite_not_special [OF fin(2)] by simp_all
  show ?thesis
  proof (cases "mant a = 0 \<or> mant b = 0")
    case True
    then have "a * b = signed_zero (sign a \<noteq> sign b)"
      unfolding times_double_def dmul_def by (simp only: sp if_False if_True simp_thms)
    then show ?thesis by (simp add: nonneg_le_def)
  next
    case False
    then have sg: "\<not> sign a" "\<not> sign b" using nn by (auto simp: valof_nonneg_iff)
    from False have prod: "a * b = round_double False (mant a * mant b) (expo a + expo b)"
      unfolding times_double_def dmul_def using sg by (simp only: sp if_False simp_thms)
    have "real (mant a * mant b) * 2 powi (expo a + expo b) = valof a * valof b"
      using nn by (simp add: valof_nonneg powi_split)
    also have "\<dots> \<le> 1 * 1" using nn lt by (intro mult_mono) simp_all
    finally have "real (mant a * mant b) * 2 powi (expo a + expo b) \<le> real 1" by simp
    moreover from False have "0 < mant a * mant b" by simp
    ultimately show ?thesis
      using round_double_bound [of "mant a * mant b" "expo a + expo b" 1 False]
      unfolding prod by (simp add: nonneg_le_def valof_def)
  qed
qed

lemma bounded_mono: "nonneg_le x N \<Longrightarrow> N \<le> N' \<Longrightarrow> nonneg_le x N'"
  by (auto simp: nonneg_le_def)

lemma bounded_zero [simp]: "nonneg_le (0::double) N"
  by (simp add: nonneg_le_def is_finite_def valof_def mant_def)

lemma fold_dot_bounded:
  assumes "\<forall>k\<in>set ks. in_unit (f k) \<and> in_unit (g k)" "nonneg_le s N" "N + length ks < 2 ^ 53"
  shows "nonneg_le (foldl (\<lambda>s k. s + f k * g k) s ks) (N + length ks)"
  using assms
proof (induction ks arbitrary: s N)
  case Nil
  then show ?case by simp
next
  case (Cons k ks)
  then have p: "nonneg_le (f k * g k) 1" by (intro times_bounded) simp_all
  with Cons.prems(2) have "valof s + valof (f k * g k) \<le> real (Suc N)"
    by (simp add: nonneg_le_def)
  with Cons.prems p have "nonneg_le (s + f k * g k) (Suc N)"
    by (intro plus_bounded) (simp_all add: nonneg_le_def)
  with Cons.prems have "nonneg_le (foldl (\<lambda>s k. s + f k * g k) (s + f k * g k) ks) (Suc N + length ks)"
    by (intro Cons.IH) simp_all
  then show ?case by simp
qed

lemma fold_sum_bounded:
  assumes "\<forall>x\<in>set xs. nonneg_le x n" "nonneg_le c N" "N + length xs * n < 2 ^ 53"
  shows "nonneg_le (foldl (+) c xs) (N + length xs * n)"
  using assms
proof (induction xs arbitrary: c N)
  case Nil
  then show ?case by simp
next
  case (Cons x xs)
  then have x: "nonneg_le x n" by simp
  with Cons.prems(2) have "valof c + valof x \<le> real (N + n)"
    by (simp add: nonneg_le_def)
  with Cons.prems x have "nonneg_le (c + x) (N + n)"
    by (intro plus_bounded) (simp_all add: nonneg_le_def)
  with Cons.prems have "nonneg_le (foldl (+) (c + x) xs) (N + n + length xs * n)"
    by (intro Cons.IH) (simp_all add: add.assoc)
  then show ?case by (simp add: add.assoc)
qed

lemma length_identity [simp]: "length (identity n) = n * n"
  by (simp add: identity_def)

lemma identity_nth: "i < n \<Longrightarrow> k < n \<Longrightarrow> identity n ! (i * n + k) = (if i = k then 1 else 0)"
  using cell_lt [of i n k] by (simp add: identity_def)

lemma plus_zero: "is_finite v \<Longrightarrow> v \<noteq> neg_zero \<Longrightarrow> is_zero z \<Longrightarrow> v + z = v"
proof (cases "mant v = 0")
  case True
  assume a: "is_finite v" "v \<noteq> neg_zero" "is_zero z"
  with True have "v = signed_zero (sign v)" by (simp add: mant_eq_0_iff is_zero_cases)
  with a(2) have "v = 0" by (cases "sign v") (simp_all add: signed_zero_True signed_zero_False)
  with a(3) show ?thesis by (simp add: zero_plus_zero)
next
  case False
  assume "is_finite v" "is_zero z"
  with False show ?thesis by (simp add: plus_zero_right)
qed

lemma zero_plus: "is_finite b \<Longrightarrow> b \<noteq> neg_zero \<Longrightarrow> 0 + b = b"
proof (cases "mant b = 0")
  case True
  assume a: "is_finite b" "b \<noteq> neg_zero"
  with True have "b = signed_zero (sign b)" by (simp add: mant_eq_0_iff is_zero_cases)
  with a(2) have "b = 0" by (cases "sign b") (simp_all add: signed_zero_True signed_zero_False)
  then show ?thesis by (simp add: zero_plus_zero is_zero_def)
next
  case False
  assume "is_finite b"
  with False show ?thesis by (simp add: plus_zero_left)
qed

lemma fold_off_diagonal:
  assumes "is_finite v" "v \<noteq> neg_zero" "i < n"
    "\<forall>k\<in>set ks. k < n \<and> k \<noteq> i \<and> is_finite (B ! (k * n + j))"
  shows "foldl (\<lambda>s k. s + identity n ! (i * n + k) * B ! (k * n + j)) v ks = v"
  using assms(4)
proof (induction ks)
  case Nil
  then show ?case by simp
next
  case (Cons k ks)
  then have k: "k < n" "k \<noteq> i" "is_finite (B ! (k * n + j))" by simp_all
  then have "identity n ! (i * n + k) = (0::double)" using assms(3) by (simp add: identity_nth)
  moreover have "is_zero (0 * B ! (k * n + j))" using k(3) by (rule zero_times)
  ultimately have "v + identity n ! (i * n + k) * B ! (k * n + j) = v"
    using assms(1,2) by (simp add: plus_zero)
  with Cons show ?case by simp
qed

lemma cell_identity:
  assumes "i < n" "\<forall>k<n. is_finite (B ! (k * n + j))" "B ! (i * n + j) \<noteq> neg_zero"
  shows "cell (identity n) B n i j = B ! (i * n + j)"
proof -
  let ?f = "\<lambda>s k. s + identity n ! (i * n + k) * B ! (k * n + j)"
  let ?b = "B ! (i * n + j)"
  have fin: "is_finite ?b" using assms(1,2) by simp
  have "[0..<i + (n - i)] = [0..<i] @ [i..<i + (n - i)]" by (rule upt_add_eq_append) simp
  moreover have "[i..<n] = i # [Suc i..<n]" using assms(1) by (rule upt_conv_Cons)
  ultimately have split: "[0..<n] = [0..<i] @ i # [Suc i..<n]" using assms(1) by simp
  have z: "is_finite (0::double)" "(0::double) \<noteq> neg_zero"
    by (simp_all add: is_finite_def) (simp add: neg_zero_def zero_double_def)
  have 1: "foldl ?f 0 [0..<i] = 0"
    using assms(1,2) by (intro fold_off_diagonal z) auto
  have 2: "?f 0 i = ?b"
    using assms(1,3) fin by (simp add: identity_nth one_times zero_plus)
  have 3: "foldl ?f ?b [Suc i..<n] = ?b"
    using assms fin by (intro fold_off_diagonal) auto
  show ?thesis
    unfolding cell_def by (subst split) (simp only: foldl_append foldl_Cons 1 2 3)
qed

lemma matmul_identity:
  assumes "length B = n * n" "\<forall>x\<in>set B. is_finite x \<and> x \<noteq> neg_zero"
  shows "matmul (identity n) B n = B"
proof (rule nth_equalityI)
  show "length (matmul (identity n) B n) = length B" using assms(1) by simp
next
  fix p assume "p < length (matmul (identity n) B n)"
  then have p: "p < n * n" by simp
  then have b: "p mod n < n" "p div n < n" using mod_div_cell by blast+
  have ok: "is_finite (B ! q) \<and> B ! q \<noteq> neg_zero" if "q < n * n" for q
    using assms that by (metis nth_mem)
  have "B ! (p div n * n + p mod n) \<noteq> neg_zero" using ok [of p] p by simp
  moreover have "\<forall>k<n. is_finite (B ! (k * n + p mod n))" using ok b by (simp add: cell_lt)
  ultimately have "cell (identity n) B n (p div n) (p mod n) = B ! (p div n * n + p mod n)"
    using b by (intro cell_identity)
  then show "matmul (identity n) B n ! p = B ! p" using p by (simp add: matmul_def)
qed

lemma nan_plus: "is_nan a \<Longrightarrow> a + b = quiet_nan"
  by (simp add: plus_double_def dadd_def)

lemma plus_nan: "is_nan b \<Longrightarrow> a + b = quiet_nan"
  by (simp add: plus_double_def dadd_def)

lemma zero_times_inf: "0 * Double 0x7FF0000000000000 = quiet_nan"
  by (simp add: times_double_def dmul_def is_nan_def is_inf_def biased_exp_def fraction_def
      mant_def zero_double_def)

lemma is_nan_quiet_nan: "is_nan quiet_nan"
  by (simp add: quiet_nan_def pack_def is_nan_def biased_exp_def fraction_def)

lemma is_zero_neg_zero: "is_zero neg_zero" "is_finite neg_zero" "neg_zero \<noteq> 0"
  by (simp_all add: neg_zero_def is_zero_def is_finite_def biased_exp_def fraction_def zero_double_def)

lemma cell_nonneg_le:
  assumes "\<forall>x\<in>set A. in_unit x" "\<forall>x\<in>set B. in_unit x" "length A = n * n" "length B = n * n"
    "i < n" "j < n" "n < 2 ^ 53"
  shows "nonneg_le (cell A B n i j) n"
proof -
  have "\<forall>k\<in>set [0..<n]. in_unit (A ! (i * n + k)) \<and> in_unit (B ! (k * n + j))"
    using assms(1-6) by (auto simp: cell_lt)
  from fold_dot_bounded [where f = "\<lambda>k. A ! (i * n + k)" and g = "\<lambda>k. B ! (k * n + j)", OF this, of 0 0]
  show ?thesis using assms(7) by (simp add: cell_def)
qed

lemma matmul_nonneg_le:
  assumes "\<forall>x\<in>set A. in_unit x" "\<forall>x\<in>set B. in_unit x" "length A = n * n" "length B = n * n"
    "n < 2 ^ 53"
  shows "\<forall>x\<in>set (matmul A B n). nonneg_le x n"
  using assms by (auto simp: matmul_def mod_div_cell intro!: cell_nonneg_le)

lemma cube_fits: "n \<le> 46340 \<Longrightarrow> n * n * n < (2::nat) ^ 53"
proof -
  assume "n \<le> 46340"
  then have "n * n * n \<le> 46340 * 46340 * 46340" by (intro mult_le_mono)
  then show ?thesis by simp
qed

lemma identity_2: "identity 2 = [1, 0, 0, 1::double]"
proof -
  have "[0..<4] = [0, 1, 2, 3]" by (simp add: upt_rec)
  then show ?thesis by (simp add: identity_def)
qed

lemma sample_finite:
  "\<forall>x\<in>set [Double 0x3FE0000000000000, Double 0x3FD0000000000000,
             Double 0x3FE8000000000000, Double 0x3FC0000000000000].
     is_finite x \<and> x \<noteq> neg_zero"
  by (simp add: is_finite_def biased_exp_def neg_zero_def)

lemma sample_in_unit:
  "\<forall>x\<in>set [Double 0x3FE0000000000000, Double 0x3FD0000000000000,
             Double 0x3FE8000000000000, Double 0x3FC0000000000000]. in_unit x"
  by (simp add: in_unit_def is_finite_def valof_def sign_def mant_def expo_def biased_exp_def
      fraction_def)

lemma sample_sum:
  "0 + Double 0x3FE0000000000000 + Double 0x3FD0000000000000 +
     Double 0x3FE8000000000000 + Double 0x3FC0000000000000 = Double 0x3FFA000000000000"
proof -
  have 1: "0 + Double 0x3FE0000000000000 = Double 0x3FE0000000000000"
    by (intro zero_plus) (simp_all add: is_finite_def biased_exp_def neg_zero_def)
  have 2: "Double 0x3FE0000000000000 + Double 0x3FD0000000000000 = Double 0x3FE8000000000000"
    apply (simp add: plus_double_def dadd_def is_nan_def is_inf_def biased_exp_def fraction_def Let_def)
    apply (simp add: expo_def biased_exp_def signed_mant_def sign_def mant_def fraction_def)
    apply (simp add: round_double_def Let_def bitlen.simps)
    apply (simp add: rne_def Let_def pack_def)
    done
  have 3: "Double 0x3FE8000000000000 + Double 0x3FE8000000000000 = Double 0x3FF8000000000000"
    apply (simp add: plus_double_def dadd_def is_nan_def is_inf_def biased_exp_def fraction_def Let_def)
    apply (simp add: expo_def biased_exp_def signed_mant_def sign_def mant_def fraction_def)
    apply (simp add: round_double_def Let_def bitlen.simps)
    apply (simp add: rne_def Let_def pack_def)
    done
  have 4: "Double 0x3FF8000000000000 + Double 0x3FC0000000000000 = Double 0x3FFA000000000000"
    apply (simp add: plus_double_def dadd_def is_nan_def is_inf_def biased_exp_def fraction_def Let_def)
    apply (simp add: expo_def biased_exp_def signed_mant_def sign_def mant_def fraction_def)
    apply (simp add: round_double_def Let_def bitlen.simps)
    apply (simp add: rne_def Let_def pack_def)
    done
  show ?thesis by (simp add: 1 2 3 4)
qed

subsection \<open>The cell as a sum, and the transposer in place\<close>

text \<open>
  Where addition is associative and commutative, the accumulated cell is the sum the
  specification writes. For \<^verbatim>\<open>double\<close> it is the accumulation from \<open>0.0\<close> in increasing
  \<open>k\<close>, which \<open>cell\<close> is by definition.
\<close>

lemma foldl_plus_sum:
  fixes f :: "nat \<Rightarrow> 'a::comm_monoid_add"
  shows "foldl (\<lambda>s k. s + f k) a ks = a + sum_list (map f ks)"
  by (induction ks arbitrary: a) (simp_all add: add.assoc)

lemma cell_eq_sum:
  fixes A B :: "'a::comm_semiring_0 list"
  shows "cell A B n i j = (\<Sum>k<n. A ! (i * n + k) * B ! (k * n + j))"
proof -
  have "sum_list (map (\<lambda>k. A ! (i * n + k) * B ! (k * n + j)) [0..<n]) =
        (\<Sum>k\<in>set [0..<n]. A ! (i * n + k) * B ! (k * n + j))"
    by (rule interv_sum_list_conv_sum_set_nat)
  then show ?thesis by (simp add: cell_def foldl_plus_sum lessThan_atLeast0)
qed

text \<open>
  With source and destination the same vector, \<^verbatim>\<open>buildTranspose\<close> does not transpose:
  it reads cells it has overwritten.
\<close>

lemma buildTranspose_in_place:
  "(case buildTranspose \<lparr>vec = (\<lambda>a. [])(0 := [1, 2, 3, 4::int]), stores = []\<rparr> 0 0 2 of
      Inl e \<Rightarrow> False | Inr m' \<Rightarrow> vec m' 0 = [1, 3, 3, 4])"
  by (simp add: buildTranspose_def buildTranspose_i.simps buildTranspose_j.simps index_def
      load_def store_def INT_MAX_def)


subsection \<open>Sample operations of the binary64 model\<close>

text \<open>
  The model on operations whose results are known: \<open>0.1 + 0.2\<close>, \<open>1.5 * 1.5\<close>, a tie
  rounded down to even and one rounded up to even, \<open>3 - 5\<close>, overflow to infinity, underflow
  to zero, a tie among subnormal numbers, \<open>1 - 1 = +0\<close>, and the invalid operations
  \<open>\<infinity> - \<infinity>\<close> and \<open>\<infinity> * 0\<close>.
\<close>

lemma binary64_tenth_plus_fifth:
  "Double 0x3FB999999999999A + Double 0x3FC999999999999A = Double 0x3FD3333333333334"
  apply (simp add: plus_double_def dadd_def is_nan_def is_inf_def biased_exp_def fraction_def Let_def)
  apply (simp add: expo_def biased_exp_def signed_mant_def sign_def mant_def fraction_def)
  apply (simp add: round_double_def Let_def bitlen.simps)
  apply (simp add: rne_def Let_def pack_def)
  done

lemma binary64_product:
  "Double 0x3FF8000000000000 * Double 0x3FF8000000000000 = Double 0x4002000000000000"
  apply (simp add: times_double_def dmul_def is_nan_def is_inf_def biased_exp_def fraction_def mant_def)
  apply (simp add: expo_def biased_exp_def sign_def)
  apply (simp add: round_double_def Let_def bitlen.simps)
  apply (simp add: rne_def Let_def pack_def)
  done

lemma binary64_tie_down:
  "Double 0x3FF0000000000000 + Double 0x3CA0000000000000 = Double 0x3FF0000000000000"
  apply (simp add: plus_double_def dadd_def is_nan_def is_inf_def biased_exp_def fraction_def Let_def)
  apply (simp add: expo_def biased_exp_def signed_mant_def sign_def mant_def fraction_def)
  apply (simp add: round_double_def Let_def bitlen.simps)
  apply (simp add: rne_def Let_def pack_def)
  done

lemma binary64_tie_up:
  "Double 0x3FF0000000000001 + Double 0x3CA0000000000000 = Double 0x3FF0000000000002"
  apply (simp add: plus_double_def dadd_def is_nan_def is_inf_def biased_exp_def fraction_def Let_def)
  apply (simp add: expo_def biased_exp_def signed_mant_def sign_def mant_def fraction_def)
  apply (simp add: round_double_def Let_def bitlen.simps)
  apply (simp add: rne_def Let_def pack_def)
  done

lemma binary64_difference:
  "Double 0x4008000000000000 + Double 0xC014000000000000 = Double 0xC000000000000000"
  apply (simp add: plus_double_def dadd_def is_nan_def is_inf_def biased_exp_def fraction_def Let_def)
  apply (simp add: expo_def biased_exp_def signed_mant_def sign_def mant_def fraction_def)
  apply (simp add: round_double_def Let_def bitlen.simps)
  apply (simp add: rne_def Let_def pack_def)
  done

lemma binary64_overflow:
  "Double 0x7FEFFFFFFFFFFFFF + Double 0x7FEFFFFFFFFFFFFF = Double 0x7FF0000000000000"
  apply (simp add: plus_double_def dadd_def is_nan_def is_inf_def biased_exp_def fraction_def Let_def)
  apply (simp add: expo_def biased_exp_def signed_mant_def sign_def mant_def fraction_def)
  apply (simp add: round_double_def Let_def bitlen.simps)
  apply (simp add: rne_def Let_def)
  apply (simp add: infinity_def pack_def)
  done

lemma binary64_underflow:
  "Double 0x0000000000000001 * Double 0x3FE0000000000000 = Double 0"
  apply (simp add: times_double_def dmul_def is_nan_def is_inf_def biased_exp_def fraction_def mant_def)
  apply (simp add: expo_def biased_exp_def sign_def)
  apply (simp add: round_double_def Let_def bitlen.simps)
  apply (simp add: rne_def Let_def pack_def)
  done

lemma binary64_subnormal_tie:
  "Double 0x0000000000000003 * Double 0x3FE0000000000000 = Double 2"
  apply (simp add: times_double_def dmul_def is_nan_def is_inf_def biased_exp_def fraction_def mant_def)
  apply (simp add: expo_def biased_exp_def sign_def)
  apply (simp add: round_double_def Let_def bitlen.simps)
  apply (simp add: rne_def Let_def pack_def)
  done

lemma binary64_exact_zero:
  "Double 0x3FF0000000000000 + Double 0xBFF0000000000000 = Double 0"
  apply (simp add: plus_double_def dadd_def is_nan_def is_inf_def biased_exp_def fraction_def Let_def)
  apply (simp add: expo_def biased_exp_def signed_mant_def sign_def mant_def fraction_def)
  apply (simp add: signed_zero_def pack_def)
  done

lemma binary64_invalid:
  "Double 0x7FF0000000000000 + Double 0xFFF0000000000000 = quiet_nan"
  "Double 0x7FF0000000000000 * Double 0x8000000000000000 = quiet_nan"
  by (simp_all add: plus_double_def times_double_def dadd_def dmul_def is_nan_def is_inf_def
      biased_exp_def fraction_def mant_def sign_def)

section \<open>Claims\<close>

text \<open>
  The index of the last cell, \<open>(n - 1) * n + (n - 1)\<close>, is an \<^verbatim>\<open>int\<close> exactly when
  \<open>n \<le> 46340\<close> (\<open>46340 * 46340 = 2147395600\<close>, \<open>46341 * 46341 = 2147488281\<close> and the largest
  \<^verbatim>\<open>int\<close> is \<open>2147483647\<close>). For a larger \<open>n\<close> each of the three functions computes, for some
  cell, an index that overflows, whatever the vectors hold: the statements about them
  below are for \<open>0 < n \<le> 46340\<close>, which includes the program's \<open>n = 2000\<close>.
\<close>







text \<open>
  Claim C3, for \<open>n \<le> 46340\<close>. For every \<open>n\<close> with \<open>0 < n \<le> 46340\<close> and vectors \<open>mul\<close> and
  \<open>mulT\<close> of \<open>n * n\<close> elements that are not the same vector,
  \<^verbatim>\<open>buildTranspose(mul, mulT, n)\<close> completes, afterwards
  \<open>mulT[i * n + j] = mul[j * n + i]\<close> for all \<open>i, j < n\<close>, and every vector other than
  \<open>mulT\<close>, the source among them, is unchanged.
\<close>

theorem buildTranspose_transposes:
  assumes "0 < n" "n \<le> 46340" "length (vec m mul) = n * n" "length (vec m mulT) = n * n"
    "mul \<noteq> mulT"
  shows "\<exists>m'. buildTranspose m mul mulT n = Inr m' \<and>
    (\<forall>i<n. \<forall>j<n. vec m' mulT ! (i * n + j) = vec m mul ! (j * n + i)) \<and>
    (\<forall>a. a \<noteq> mulT \<longrightarrow> vec m' a = vec m a)"
proof -
  from assms(2) have "n * n \<le> INT_MAX" by (simp add: fits_iff)
  from buildTranspose_result [OF assms(5) this assms(3,4)]
  show ?thesis by (simp add: transposed_nth)
qed

theorem buildTranspose_transposes_witness:
  "\<exists>m'. buildTranspose \<lparr>vec = (\<lambda>a. [])(0 := [1, 2, 3, 4::int], 1 := [0, 0, 0, 0]), stores = []\<rparr> 0 1 2 = Inr m' \<and>
     vec m' 1 ! 0 = 1 \<and> vec m' 1 ! 1 = 3 \<and> vec m' 1 ! 2 = 2 \<and> vec m' 1 ! 3 = 4 \<and>
     vec m' 0 = [1, 2, 3, 4]"
proof -
  let ?m = "\<lparr>vec = (\<lambda>a. [])(0 := [1, 2, 3, 4::int], 1 := [0, 0, 0, 0]), stores = []\<rparr>"
  from buildTranspose_transposes [of 2 ?m 0 1]
  obtain m' where r: "buildTranspose ?m 0 1 2 = Inr m'"
    and t: "\<And>i j. i < 2 \<Longrightarrow> j < 2 \<Longrightarrow> vec m' 1 ! (i * 2 + j) = vec ?m 0 ! (j * 2 + i)"
    and u: "\<And>a. a \<noteq> 1 \<Longrightarrow> vec m' a = vec ?m a"
    by auto
  from t [of 0 0] t [of 0 1] t [of 1 0] t [of 1 1] u [of 0] r show ?thesis by simp
qed

text \<open>For \<open>n = 46341\<close> the transposer stops at an index that is not an \<^verbatim>\<open>int\<close>.\<close>

theorem buildTranspose_large_counterexample:
  "isl (buildTranspose \<lparr>vec = (\<lambda>a. replicate 2147488281 (0::double)), stores = []\<rparr> 0 1 46341)"
proof (rule ccontr)
  assume "\<not> ?thesis"
  then obtain m' where
    "buildTranspose \<lparr>vec = (\<lambda>a. replicate 2147488281 (0::double)), stores = []\<rparr> 0 1 46341 = Inr m'"
    by (metis sum.collapse(2))
  from buildTranspose_in_int [OF this] show False by (simp add: INT_MAX_def)
qed

text \<open>
  Claim C4, for \<open>n \<le> 46340\<close>. For every \<open>n\<close> with \<open>0 < n \<le> 46340\<close> and every \<open>n \<times> n\<close>
  matrix \<open>M\<close>, transposing \<open>M\<close> into \<open>T\<close> and \<open>T\<close> into \<open>T'\<close> (each time into another
  vector) leaves in \<open>T'\<close> the elements of \<open>M\<close>.
\<close>

theorem buildTranspose_involution:
  assumes "0 < n" "n \<le> 46340" "length (vec m M) = n * n" "length (vec m T) = n * n"
    "length (vec m T') = n * n" "M \<noteq> T" "T \<noteq> T'"
  shows "\<exists>m1 m2. buildTranspose m M T n = Inr m1 \<and> buildTranspose m1 T T' n = Inr m2 \<and>
    vec m2 T' = vec m M"
proof -
  from assms(2) have fit: "n * n \<le> INT_MAX" by (simp add: fits_iff)
  let ?m1 = "m\<lparr>vec := (vec m)(T := transposed (vec m M) n),
               stores := stores m @ map (Pair T) [0..<n * n]\<rparr>"
  have 1: "buildTranspose m M T n = Inr ?m1"
    using buildTranspose_result [OF assms(6) fit assms(3,4)] .
  have "buildTranspose ?m1 T T' n =
    Inr (?m1\<lparr>vec := (vec ?m1)(T' := transposed (vec ?m1 T) n),
            stores := stores ?m1 @ map (Pair T') [0..<n * n]\<rparr>)"
    using assms by (intro buildTranspose_result fit) auto
  with 1 show ?thesis using assms(3) by (simp add: transposed_involution)
qed

theorem buildTranspose_involution_witness:
  "\<exists>m1 m2. buildTranspose \<lparr>vec = (\<lambda>a. replicate 4 0)(0 := [1, 2, 3, 4::int]), stores = []\<rparr> 0 1 2 = Inr m1 \<and>
     buildTranspose m1 1 2 2 = Inr m2 \<and> vec m2 2 = [1, 2, 3, 4]"
  using buildTranspose_involution
    [of 2 "\<lparr>vec = (\<lambda>a. replicate 4 0)(0 := [1, 2, 3, 4::int]), stores = []\<rparr>" 0 1 2]
  by simp

text \<open>For \<open>n = 46341\<close> the first of the two calls already has no result.\<close>

theorem buildTranspose_involution_counterexample:
  "isl (bindE (buildTranspose \<lparr>vec = (\<lambda>a. replicate 2147488281 (1::double)), stores = []\<rparr> 0 1 46341)
        (\<lambda>m1. buildTranspose m1 1 2 46341))"
proof (rule ccontr)
  assume "\<not> ?thesis"
  then obtain m2 where "bindE (buildTranspose \<lparr>vec = (\<lambda>a. replicate 2147488281 (1::double)), stores = []\<rparr> 0 1 46341)
        (\<lambda>m1. buildTranspose m1 1 2 46341) = Inr m2"
    by (metis sum.collapse(2))
  then obtain m1 where
    "buildTranspose \<lparr>vec = (\<lambda>a. replicate 2147488281 (1::double)), stores = []\<rparr> 0 1 46341 = Inr m1"
    by (auto simp: bindE_eq_Inr)
  from buildTranspose_in_int [OF this] show False by (simp add: INT_MAX_def)
qed

text \<open>
  Claim C5. Every run of \<^verbatim>\<open>main\<close> completes, and the matrices it generates are the first
  \<open>2000 * 2000\<close> values (\<^verbatim>\<open>mul1\<close>) and the next \<open>2000 * 2000\<close> values (\<^verbatim>\<open>mul2\<close>) that the
  distribution draws from the generator seeded with the constant \<open>89899898\<close>. Two runs on
  platforms with the same generator and distribution therefore hold the same matrices,
  whatever their command lines (so in both modes), their \<^verbatim>\<open>std::random_device\<close> and
  their clocks.
\<close>

theorem generation_deterministic:
  fixes pf pf' :: "('g, 'a::{zero,plus,times}) platform"
  assumes "mt19937 pf' = mt19937 pf" "uniform_real pf' = uniform_real pf"
  shows "\<exists>r r'. main pf argv = Inr r \<and> main pf' argv' = Inr r' \<and>
    vec (final r') v_mul1 = vec (final r) v_mul1 \<and> vec (final r') v_mul2 = vec (final r) v_mul2 \<and>
    vec (final r) v_mul1 = draws (uniform_real pf) (mt19937 pf 89899898) (2000 * 2000) \<and>
    vec (final r) v_mul2 =
      draws (uniform_real pf) (after (uniform_real pf) (mt19937 pf 89899898) (2000 * 2000))
        (2000 * 2000)"
proof -
  have fit: "2000 * 2000 \<le> INT_MAX" by (simp add: INT_MAX_def)
  have run: "\<exists>r. main p args = Inr r \<and> vec (final r) v_mul1 = mul1_of p 2000 \<and>
      vec (final r) v_mul2 = mul2_of p 2000" for p :: "('g, 'a) platform" and args
    using main_n_naive [OF fit, of args p] main_n_transposed [OF fit, of args p]
    unfolding main_def by (cases "transposeMode args") auto
  from run [of pf argv] run [of pf' argv'] assms show ?thesis
    by (auto simp: mul1_of_def mul2_of_def)
qed

theorem generation_deterministic_witness:
  "\<exists>r r'.
     main \<lparr>mt19937 = (\<lambda>seed. seed), uniform_real = (\<lambda>g. (int g mod 7, Suc g)), random_device = 11,
           steady_clock = (\<lambda>k. 0), to_bits = (\<lambda>x. 0)\<rparr> [''./benchmark''] = Inr r \<and>
     main \<lparr>mt19937 = (\<lambda>seed. seed), uniform_real = (\<lambda>g. (int g mod 7, Suc g)), random_device = 22,
           steady_clock = (\<lambda>k. int k * 5000000), to_bits = (\<lambda>x. 0)\<rparr>
          [''./benchmark'', ''transpose''] = Inr r' \<and>
     vec (final r') v_mul1 = vec (final r) v_mul1 \<and> vec (final r') v_mul2 = vec (final r) v_mul2"
  using generation_deterministic
    [of "\<lparr>mt19937 = (\<lambda>seed. seed), uniform_real = (\<lambda>g. (int g mod 7, Suc g)), random_device = 22,
           steady_clock = (\<lambda>k. int k * 5000000), to_bits = (\<lambda>x. 0)\<rparr>"
        "\<lparr>mt19937 = (\<lambda>seed. seed), uniform_real = (\<lambda>g. (int g mod 7, Suc g)), random_device = 11,
           steady_clock = (\<lambda>k. 0), to_bits = (\<lambda>x. 0)\<rparr>"
        "[''./benchmark'']" "[''./benchmark'', ''transpose'']"]
  by auto

text \<open>
  Claim C6, for finite entries and \<open>n \<le> 46340\<close>. If \<open>mul1\<close> is the \<open>n \<times> n\<close> identity
  matrix, \<open>0 < n \<le> 46340\<close>, and every entry of \<open>mul2\<close> is finite and is not \<open>-0.0\<close>, then
  either kernel returns \<open>mul2\<close> unchanged, bit for bit, and the checksum of the result has
  the bits of the sum of the entries of \<open>mul2\<close>, accumulated from \<open>0.0\<close> in index order as
  the checksum loop does.
\<close>

theorem identity_product:
  assumes "0 < n" "n \<le> 46340"
    "vec m mul1 = identity n" "length (vec m mul2) = n * n" "length (vec m mul2T) = n * n"
    "length (vec m resA) = n * n" "length (vec m resB) = n * n"
    "resA \<noteq> mul1" "resA \<noteq> mul2" "mul2T \<noteq> mul1" "mul2T \<noteq> mul2" "resB \<noteq> mul1" "resB \<noteq> mul2T"
    "\<forall>x\<in>set (vec m mul2). is_finite x \<and> x \<noteq> neg_zero"
  shows "\<exists>ma mt mb c. multiplyNaive m mul1 mul2 resA n = Inr ma \<and> vec ma resA = vec m mul2 \<and>
    buildTranspose m mul2 mul2T n = Inr mt \<and>
    multiplyWithTranspose mt mul1 mul2T resB n = Inr mb \<and> vec mb resB = vec m mul2 \<and>
    checksum ma resA (n * n) 0 0 = Inr c \<and> checksum mb resB (n * n) 0 0 = Inr c \<and>
    bits c = bits (foldl (+) 0 (vec m mul2))"
proof -
  from assms(2) have fit: "n * n \<le> INT_MAX" by (simp add: fits_iff)
  have l1: "length (vec m mul1) = n * n" using assms(3) by simp
  let ?ma = "m\<lparr>vec := (vec m)(resA := matmul (vec m mul1) (vec m mul2) n),
               stores := stores m @ map (Pair resA) [0..<n * n]\<rparr>"
  let ?mt = "m\<lparr>vec := (vec m)(mul2T := transposed (vec m mul2) n),
               stores := stores m @ map (Pair mul2T) [0..<n * n]\<rparr>"
  let ?mb = "?mt\<lparr>vec := (vec ?mt)(resB := matmulT (vec ?mt mul1) (vec ?mt mul2T) n),
               stores := stores ?mt @ map (Pair resB) [0..<n * n]\<rparr>"
  have a: "multiplyNaive m mul1 mul2 resA n = Inr ?ma"
    using assms l1 by (intro multiplyNaive_result fit) auto
  have t: "buildTranspose m mul2 mul2T n = Inr ?mt"
    using assms by (intro buildTranspose_result fit) auto
  have b: "multiplyWithTranspose ?mt mul1 mul2T resB n = Inr ?mb"
    using assms l1 by (intro multiplyWithTranspose_result fit) auto
  have prod: "matmul (identity n) (vec m mul2) n = vec m mul2"
    using assms(4,14) by (rule matmul_identity)
  have ra: "vec ?ma resA = vec m mul2" using assms(3) prod by simp
  have rb: "vec ?mb resB = vec m mul2"
    using assms(3,10,11,12,13) prod by (simp add: matmulT_transposed)
  have ca: "checksum ?ma resA (n * n) 0 0 = Inr (foldl (+) 0 (drop 0 (vec ?ma resA)))"
    by (intro checksum_fold) simp_all
  have cb: "checksum ?mb resB (n * n) 0 0 = Inr (foldl (+) 0 (drop 0 (vec ?mb resB)))"
    by (intro checksum_fold) simp_all
  have ca': "checksum ?ma resA (n * n) 0 0 = Inr (foldl (+) 0 (vec m mul2))"
    using ca unfolding ra by simp
  have cb': "checksum ?mb resB (n * n) 0 0 = Inr (foldl (+) 0 (vec m mul2))"
    using cb unfolding rb by simp
  show ?thesis
    by (intro exI conjI) (rule a ra t b rb ca' cb' refl)+
qed

theorem identity_product_witness:
  "\<exists>ma mt mb c.
     multiplyNaive \<lparr>vec = (\<lambda>a. replicate 4 0)(0 := [1, 0, 0, 1],
         1 := [Double 0x3FE0000000000000, Double 0x3FD0000000000000,
               Double 0x3FE8000000000000, Double 0x3FC0000000000000]), stores = []\<rparr> 0 1 3 2 = Inr ma \<and>
     vec ma 3 = [Double 0x3FE0000000000000, Double 0x3FD0000000000000,
                 Double 0x3FE8000000000000, Double 0x3FC0000000000000] \<and>
     buildTranspose \<lparr>vec = (\<lambda>a. replicate 4 0)(0 := [1, 0, 0, 1],
         1 := [Double 0x3FE0000000000000, Double 0x3FD0000000000000,
               Double 0x3FE8000000000000, Double 0x3FC0000000000000]), stores = []\<rparr> 1 2 2 = Inr mt \<and>
     multiplyWithTranspose mt 0 2 4 2 = Inr mb \<and>
     vec mb 4 = [Double 0x3FE0000000000000, Double 0x3FD0000000000000,
                 Double 0x3FE8000000000000, Double 0x3FC0000000000000] \<and>
     checksum ma 3 (2 * 2) 0 0 = Inr c \<and> checksum mb 4 (2 * 2) 0 0 = Inr c \<and>
     bits c = 0x3FFA000000000000"
  using identity_product [of 2 "\<lparr>vec = (\<lambda>a. replicate 4 0)(0 := [1, 0, 0, 1],
         1 := [Double 0x3FE0000000000000, Double 0x3FD0000000000000,
               Double 0x3FE8000000000000, Double 0x3FC0000000000000]), stores = []\<rparr>" 0 1 2 3 4]
    sample_finite
  by (simp add: identity_2 sample_sum)

text \<open>
  The claim fails for an infinite entry: with \<open>B = [\<infinity>, 0; 0, 0]\<close> the cell \<open>(1, 0)\<close> of
  the product is \<open>0.0 + 0.0 * \<infinity> + 1.0 * 0.0\<close>, a NaN, where \<open>B\<close> holds \<open>0.0\<close>. And an entry
  \<open>-0.0\<close> comes back as \<open>+0.0\<close>, which is equal to it as a number and differs in the sign
  bit: \<open>0.0 + 1.0 * (-0.0) = +0.0\<close>. For \<open>n = 46341\<close> the kernel has no result.
\<close>

theorem identity_product_counterexample:
  "(\<exists>m'. multiplyNaive
       \<lparr>vec = (\<lambda>a. replicate 4 0)(0 := [1, 0, 0, 1], 1 := [Double 0x7FF0000000000000, 0, 0, 0]),
        stores = []\<rparr> 0 1 2 2 = Inr m' \<and>
     is_nan (vec m' 2 ! 2) \<and> \<not> is_nan ([Double 0x7FF0000000000000, 0, 0, 0] ! 2)) \<and>
   (\<exists>m'. multiplyNaive
       \<lparr>vec = (\<lambda>a. [0])(0 := [1], 1 := [Double 0x8000000000000000]), stores = []\<rparr> 0 1 2 1 = Inr m' \<and>
     vec m' 2 = [Double 0] \<and> Double 0 \<noteq> Double 0x8000000000000000) \<and>
   isl (multiplyNaive
       \<lparr>vec = (\<lambda>a. replicate 2147488281 (0::double))(0 := identity 46341), stores = []\<rparr>
       0 1 2 46341)"
proof -
  let ?m = "\<lparr>vec = (\<lambda>a. replicate 4 0)(0 := [1, 0, 0, 1], 1 := [Double 0x7FF0000000000000, 0, 0, 0::double]),
        stores = []\<rparr>"
  have fit: "2 * 2 \<le> INT_MAX" "1 * 1 \<le> INT_MAX" by (simp_all add: INT_MAX_def)
  have r: "multiplyNaive ?m 0 1 2 2 =
      Inr (?m\<lparr>vec := (vec ?m)(2 := matmul (vec ?m 0) (vec ?m 1) 2),
              stores := stores ?m @ map (Pair 2) [0..<2 * 2]\<rparr>)"
    by (intro multiplyNaive_result fit) simp_all
  have "[0..<4] = [0, 1, 2, 3]" "[0..<2] = [0, 1]" by (simp_all add: upt_rec)
  then have "matmul (vec ?m 0) (vec ?m 1) 2 ! 2 = (0 + 0 * Double 0x7FF0000000000000) + 1 * 0"
    by (simp add: matmul_def cell_def)
  also have "\<dots> = quiet_nan"
    by (simp add: zero_times_inf nan_plus plus_nan is_nan_quiet_nan)
  finally have nan: "is_nan (matmul (vec ?m 0) (vec ?m 1) 2 ! 2)" by (simp add: is_nan_quiet_nan)
  have zero: "\<not> is_nan (0::double)" by (simp add: is_nan_def)
  let ?k = "\<lparr>vec = (\<lambda>a. [0])(0 := [1], 1 := [Double 0x8000000000000000::double]), stores = []\<rparr>"
  have s: "multiplyNaive ?k 0 1 2 1 =
      Inr (?k\<lparr>vec := (vec ?k)(2 := matmul (vec ?k 0) (vec ?k 1) 1),
              stores := stores ?k @ map (Pair 2) [0..<1 * 1]\<rparr>)"
    by (intro multiplyNaive_result fit) simp_all
  have "matmul (vec ?k 0) (vec ?k 1) 1 = [0 + 1 * neg_zero]"
    by (simp add: matmul_def cell_def neg_zero_def)
  also have "\<dots> = [0]"
    using is_zero_neg_zero by (simp add: one_times zero_plus_zero)
  finally have z: "matmul (vec ?k 0) (vec ?k 1) 1 = [Double 0]" by (simp add: zero_double_def)
  have "multiplyNaive
       \<lparr>vec = (\<lambda>a. replicate 2147488281 (0::double))(0 := identity 46341), stores = []\<rparr>
       0 1 2 46341 \<noteq> Inr m'" for m'
    using multiplyNaive_in_int [of _ 0 1 2 46341 m'] by (auto simp: INT_MAX_def)
  then have big: "isl (multiplyNaive
       \<lparr>vec = (\<lambda>a. replicate 2147488281 (0::double))(0 := identity 46341), stores = []\<rparr>
       0 1 2 46341)"
    by (metis sum.collapse(2))
  show ?thesis
    unfolding r s using nan zero z big by simp
qed



text \<open>
  Claim C8, for \<open>n \<le> 46340\<close>. If \<open>0 < n \<le> 46340\<close> and every entry of \<open>mul1\<close> and \<open>mul2\<close> is
  a finite \<^verbatim>\<open>double\<close> in \<open>[0, 1)\<close>, then every entry of the result of either kernel is
  finite and lies in \<open>[0, n]\<close>, and the checksum of the \<open>n * n\<close> entries is finite and lies
  in \<open>[0, n ^ 3]\<close>: no rounding of a sum or a product carries it over the bound.
\<close>

theorem results_in_range:
  assumes "0 < n" "n \<le> 46340"
    "length (vec m mul1) = n * n" "length (vec m mul2) = n * n" "length (vec m mul2T) = n * n"
    "length (vec m resA) = n * n" "length (vec m resB) = n * n"
    "resA \<noteq> mul1" "resA \<noteq> mul2" "mul2T \<noteq> mul1" "mul2T \<noteq> mul2" "resB \<noteq> mul1" "resB \<noteq> mul2T"
    "\<forall>x\<in>set (vec m mul1). in_unit x" "\<forall>x\<in>set (vec m mul2). in_unit x"
  shows "\<exists>ma mt mb ca cb. multiplyNaive m mul1 mul2 resA n = Inr ma \<and>
    buildTranspose m mul2 mul2T n = Inr mt \<and>
    multiplyWithTranspose mt mul1 mul2T resB n = Inr mb \<and>
    (\<forall>x\<in>set (vec ma resA). is_finite x \<and> 0 \<le> valof x \<and> valof x \<le> real n) \<and>
    (\<forall>x\<in>set (vec mb resB). is_finite x \<and> 0 \<le> valof x \<and> valof x \<le> real n) \<and>
    checksum ma resA (n * n) 0 0 = Inr ca \<and> checksum mb resB (n * n) 0 0 = Inr cb \<and>
    is_finite ca \<and> 0 \<le> valof ca \<and> valof ca \<le> real (n ^ 3) \<and>
    is_finite cb \<and> 0 \<le> valof cb \<and> valof cb \<le> real (n ^ 3)"
proof -
  from assms(2) have fit: "n * n \<le> INT_MAX" by (simp add: fits_iff)
  from assms(2) have small: "n < 2 ^ 53" by simp
  let ?P = "matmul (vec m mul1) (vec m mul2) n"
  let ?ma = "m\<lparr>vec := (vec m)(resA := ?P),
               stores := stores m @ map (Pair resA) [0..<n * n]\<rparr>"
  let ?mt = "m\<lparr>vec := (vec m)(mul2T := transposed (vec m mul2) n),
               stores := stores m @ map (Pair mul2T) [0..<n * n]\<rparr>"
  let ?mb = "?mt\<lparr>vec := (vec ?mt)(resB := matmulT (vec ?mt mul1) (vec ?mt mul2T) n),
               stores := stores ?mt @ map (Pair resB) [0..<n * n]\<rparr>"
  have a: "multiplyNaive m mul1 mul2 resA n = Inr ?ma"
    using assms by (intro multiplyNaive_result fit) auto
  have t: "buildTranspose m mul2 mul2T n = Inr ?mt"
    using assms by (intro buildTranspose_result fit) auto
  have b: "multiplyWithTranspose ?mt mul1 mul2T resB n = Inr ?mb"
    using assms by (intro multiplyWithTranspose_result fit) auto
  have ra: "vec ?ma resA = ?P" by simp
  have rb: "vec ?mb resB = ?P" using assms(10-13) by (simp add: matmulT_transposed)
  have cells: "\<forall>x\<in>set ?P. nonneg_le x n"
    using assms(14,15,3,4) small by (rule matmul_nonneg_le)
  have "nonneg_le (foldl (+) 0 ?P) (0 + length ?P * n)"
    using cells cube_fits [OF assms(2)] by (intro fold_sum_bounded) simp_all
  then have sum: "nonneg_le (foldl (+) 0 ?P) (n ^ 3)"
    by (simp add: power3_eq_cube)
  have ca: "checksum ?ma resA (n * n) 0 0 = Inr (foldl (+) 0 (drop 0 (vec ?ma resA)))"
    by (intro checksum_fold) simp_all
  have cb: "checksum ?mb resB (n * n) 0 0 = Inr (foldl (+) 0 (drop 0 (vec ?mb resB)))"
    by (intro checksum_fold) simp_all
  have ca': "checksum ?ma resA (n * n) 0 0 = Inr (foldl (+) 0 ?P)"
    using ca unfolding ra by simp
  have cb': "checksum ?mb resB (n * n) 0 0 = Inr (foldl (+) 0 ?P)"
    using cb unfolding rb by simp
  have ea: "\<forall>x\<in>set (vec ?ma resA). is_finite x \<and> 0 \<le> valof x \<and> valof x \<le> real n"
    unfolding ra using cells by (simp add: nonneg_le_def)
  have eb: "\<forall>x\<in>set (vec ?mb resB). is_finite x \<and> 0 \<le> valof x \<and> valof x \<le> real n"
    unfolding rb using cells by (simp add: nonneg_le_def)
  from sum have s: "is_finite (foldl (+) 0 ?P)" "0 \<le> valof (foldl (+) 0 ?P)"
    "valof (foldl (+) 0 ?P) \<le> real (n ^ 3)" by (simp_all add: nonneg_le_def)
  show ?thesis
    by (intro exI conjI) (rule a t b ea eb ca' cb' s)+
qed

theorem results_in_range_witness:
  "\<exists>ma mt mb ca cb.
     multiplyNaive \<lparr>vec = (\<lambda>a. replicate 4 0)(
         0 := [Double 0x3FE0000000000000, Double 0x3FD0000000000000,
               Double 0x3FE8000000000000, Double 0x3FC0000000000000],
         1 := [Double 0x3FE0000000000000, Double 0x3FD0000000000000,
               Double 0x3FE8000000000000, Double 0x3FC0000000000000]), stores = []\<rparr> 0 1 3 2 = Inr ma \<and>
     buildTranspose \<lparr>vec = (\<lambda>a. replicate 4 0)(
         0 := [Double 0x3FE0000000000000, Double 0x3FD0000000000000,
               Double 0x3FE8000000000000, Double 0x3FC0000000000000],
         1 := [Double 0x3FE0000000000000, Double 0x3FD0000000000000,
               Double 0x3FE8000000000000, Double 0x3FC0000000000000]), stores = []\<rparr> 1 2 2 = Inr mt \<and>
     multiplyWithTranspose mt 0 2 4 2 = Inr mb \<and>
     (\<forall>x\<in>set (vec ma 3). is_finite x \<and> 0 \<le> valof x \<and> valof x \<le> real 2) \<and>
     (\<forall>x\<in>set (vec mb 4). is_finite x \<and> 0 \<le> valof x \<and> valof x \<le> real 2) \<and>
     checksum ma 3 (2 * 2) 0 0 = Inr ca \<and> checksum mb 4 (2 * 2) 0 0 = Inr cb \<and>
     is_finite ca \<and> 0 \<le> valof ca \<and> valof ca \<le> real (2 ^ 3) \<and>
     is_finite cb \<and> 0 \<le> valof cb \<and> valof cb \<le> real (2 ^ 3)"
  by (rule results_in_range) (simp_all add: sample_in_unit)

text \<open>For \<open>n = 46341\<close> and entries \<open>0.0\<close> the kernel has no result to bound.\<close>

theorem results_in_range_counterexample:
  "in_unit (0::double) \<and>
   isl (multiplyNaive \<lparr>vec = (\<lambda>a. replicate 2147488281 (0::double)), stores = []\<rparr> 0 1 2 46341)"
proof -
  have "multiplyNaive \<lparr>vec = (\<lambda>a. replicate 2147488281 (0::double)), stores = []\<rparr> 0 1 2 46341 \<noteq> Inr m'" for m'
    using multiplyNaive_in_int [of _ 0 1 2 46341 m'] by (auto simp: INT_MAX_def)
  then have "isl (multiplyNaive \<lparr>vec = (\<lambda>a. replicate 2147488281 (0::double)), stores = []\<rparr> 0 1 2 46341)"
    by (metis sum.collapse(2))
  then show ?thesis by (simp add: in_unit_def is_finite_def valof_def mant_def)
qed



text \<open>
  Claim C10, for \<open>n \<le> 46340\<close>. For \<open>0 < n \<le> 46340\<close> every index \<open>row * n + col\<close> with
  \<open>row, col < n\<close> is an \<^verbatim>\<open>int\<close> below \<open>n * n\<close>, and with buffers of \<open>n * n\<close> elements
  \<^verbatim>\<open>buildTranspose\<close>, \<^verbatim>\<open>multiplyNaive\<close>, \<^verbatim>\<open>multiplyWithTranspose\<close> and the checksum
  loop complete: no access of theirs is out of range and no index of theirs overflows,
  also when the buffers are the same vector.
\<close>

theorem accesses_in_bounds:
  assumes "0 < n" "n \<le> 46340"
    "length (vec m mul1) = n * n" "length (vec m mul2) = n * n" "length (vec m res) = n * n"
  shows "(\<forall>row<n. \<forall>col<n. \<exists>p. index n row col = Inr p \<and> p < n * n) \<and>
    (\<exists>m'. buildTranspose m mul1 res n = Inr m') \<and>
    (\<exists>m'. multiplyNaive m mul1 mul2 res n = Inr m') \<and>
    (\<exists>m'. multiplyWithTranspose m mul1 mul2 res n = Inr m') \<and>
    (\<exists>c. checksum m res (n * n) 0 acc = Inr c)"
proof -
  from assms(2) have fit: "n * n \<le> INT_MAX" by (simp add: fits_iff)
  have "\<forall>row<n. \<forall>col<n. \<exists>p. index n row col = Inr p \<and> p < n * n"
    using fit by (simp add: index_cell cell_lt)
  moreover have "\<exists>m'. buildTranspose m mul1 res n = Inr m'"
    using buildTranspose_i_safe [OF fit assms(3,5), of 0] by (auto simp: buildTranspose_def)
  moreover have "\<exists>m'. multiplyNaive m mul1 mul2 res n = Inr m'"
    using multiplyNaive_i_safe [OF fit assms(3,4,5), of 0] by (auto simp: multiplyNaive_def)
  moreover have "\<exists>m'. multiplyWithTranspose m mul1 mul2 res n = Inr m'"
    using multiplyWithTranspose_i_safe [OF fit assms(3,4,5), of 0]
    by (auto simp: multiplyWithTranspose_def)
  moreover have "\<exists>c. checksum m res (n * n) 0 acc = Inr c"
    using checksum_fold [OF assms(5), of 0 acc] by simp
  ultimately show ?thesis by blast
qed

theorem accesses_in_bounds_witness:
  "(\<exists>p. index 2 1 1 = Inr p \<and> p < 2 * 2) \<and>
   (\<exists>m'. buildTranspose \<lparr>vec = (\<lambda>a. [1, 2, 3, 4::int]), stores = []\<rparr> 0 2 2 = Inr m') \<and>
   (\<exists>m'. multiplyNaive \<lparr>vec = (\<lambda>a. [1, 2, 3, 4::int]), stores = []\<rparr> 0 1 2 2 = Inr m') \<and>
   (\<exists>m'. multiplyWithTranspose \<lparr>vec = (\<lambda>a. [1, 2, 3, 4::int]), stores = []\<rparr> 0 1 2 2 = Inr m') \<and>
   (\<exists>c. checksum \<lparr>vec = (\<lambda>a. [1, 2, 3, 4::int]), stores = []\<rparr> 2 (2 * 2) 0 0 = Inr c)"
  using accesses_in_bounds [of 2 "\<lparr>vec = (\<lambda>a. [1, 2, 3, 4::int]), stores = []\<rparr>" 0 1 2 0]
  by simp

text \<open>
  For \<open>n = 46341\<close> the index of the last cell is not an \<^verbatim>\<open>int\<close>, and the access it is
  computed for is never a defined one.
\<close>

theorem accesses_in_bounds_counterexample:
  "index 46341 46340 46340 = Inl IntOverflow \<and>
   isl (multiplyWithTranspose \<lparr>vec = (\<lambda>a. replicate 2147488281 (0::double)), stores = []\<rparr> 0 1 2 46341)"
proof -
  have "multiplyWithTranspose \<lparr>vec = (\<lambda>a. replicate 2147488281 (0::double)), stores = []\<rparr> 0 1 2 46341 \<noteq> Inr m'" for m'
    using multiplyWithTranspose_in_int [of _ 0 1 2 46341 m'] by (auto simp: INT_MAX_def)
  then have "isl (multiplyWithTranspose \<lparr>vec = (\<lambda>a. replicate 2147488281 (0::double)), stores = []\<rparr> 0 1 2 46341)"
    by (metis sum.collapse(2))
  then show ?thesis by (simp add: index_def INT_MAX_def)
qed

end
